theory Spec2Isabelle
  imports Main "HOL-Library.Word" "HOL-Library.Multiset"
begin

section \<open>The tracer engine of OrbitLinuxTracing (TracerThread.cpp)\<close>

text \<open>
  A shallow embedding of \<^verbatim>\<open>src/OrbitLinuxTracing/TracerThread.cpp\<close>. The members of
  \<^verbatim>\<open>TracerThread\<close> become fields of the record \<open>tracer\<close> (the trailing underscore of the
  C++ member names is dropped, since a record field cannot end in one). The kernel and
  the other collaborators that are not part of the file (the perf_event_open wrappers,
  mmap, the clock, the process's cpuset) are an explicit environment \<open>env\<close>: every
  answer they give is a parameter. Everything the tracer does to the outside world is
  appended to a log (\<open>trace\<close>), so that the order of system calls can be stated.
  ERROR and LOG lines are not modelled.
\<close>

subsection \<open>Data\<close>

type_synonym fd = int
type_synonym cpu = int

record instrumented_function =
  BinaryPath :: string
  FileOffset :: nat
  VirtualAddress :: nat

text \<open>The wrappers around perf_event_open, each with the arguments the tracer passes
  (the pid argument is always -1 and is left out).\<close>

datatype perf_source =
    context_switch_event cpu
  | mmap_task_event cpu
  | sample_event nat cpu
  | uprobes_stack_event string nat cpu
  | uretprobes_event string nat cpu
  | tracepoint_event string string cpu

text \<open>A record in a ring buffer. The byte layout lives in headers that are not part of
  the file; each field is what the named reader or accessor returns for the record.\<close>

record perf_record =
  header_type :: nat
  header_size :: nat
  ReadSampleRecordPid :: int
  ReadUretprobesRecordPid :: int
  ReadMmapRecordPid :: int
  GetPid :: int
  GetTid :: int
  GetCpu :: "32 word"
  GetTimestamp :: "64 word"
  GetStreamId :: "64 word"
  IsSwitchOut :: bool
  GetNumLost :: "64 word"

text \<open>The values of enum perf_event_type in linux/perf_event.h.\<close>

definition PERF_RECORD_MMAP :: nat where "PERF_RECORD_MMAP = 1"
definition PERF_RECORD_LOST :: nat where "PERF_RECORD_LOST = 2"
definition PERF_RECORD_EXIT :: nat where "PERF_RECORD_EXIT = 4"
definition PERF_RECORD_FORK :: nat where "PERF_RECORD_FORK = 7"
definition PERF_RECORD_SAMPLE :: nat where "PERF_RECORD_SAMPLE = 9"
definition PERF_RECORD_SWITCH :: nat where "PERF_RECORD_SWITCH = 14"
definition PERF_RECORD_SWITCH_CPU_WIDE :: nat where "PERF_RECORD_SWITCH_CPU_WIDE = 15"

text \<open>The comment in the polling loop gives the batch size.\<close>

definition ROUND_ROBIN_POLLING_BATCH_SIZE :: nat where
  "ROUND_ROBIN_POLLING_BATCH_SIZE = 5"

text \<open>The events handed to the deferred queue, each with its origin file descriptor.\<close>

datatype PerfEvent =
    MapsPerfEvent "64 word" fd
  | UprobesWithStackPerfEvent perf_record instrumented_function fd
  | UretprobesPerfEvent perf_record instrumented_function fd
  | StackSamplePerfEvent perf_record fd

fun GetOriginFileDescriptor :: "PerfEvent \<Rightarrow> fd" where
  "GetOriginFileDescriptor (MapsPerfEvent t f) = f"
| "GetOriginFileDescriptor (UprobesWithStackPerfEvent r fn f) = f"
| "GetOriginFileDescriptor (UretprobesPerfEvent r fn f) = f"
| "GetOriginFileDescriptor (StackSamplePerfEvent r f) = f"

datatype listener_call =
    OnTid int
  | OnContextSwitchIn int "16 word" "64 word"
  | OnContextSwitchOut int "16 word" "64 word"

text \<open>What the tracer does to the world, in the order it does it.\<close>

datatype action =
    Open perf_source fd
  | Mmap fd
  | Munmap fd
  | Close fd
  | Enable fd
  | Disable fd
  | Redirect fd fd
  | StopDeferredThread
  | JoinDeferredThread
  | AddEvent fd PerfEvent
  | ProcessOldEvents
  | ProcessAllEvents

text \<open>A ring buffer holds a handle on its file descriptor and a read position; the
  records the kernel writes to it are \<open>produced env fd\<close>.\<close>

record PerfEventRingBuffer =
  GetFileDescriptor :: fd
  IsOpen :: bool
  tail :: nat

record GpuTracepointEventProcessor =
  amdgpu_cs_ioctl_id :: int
  amdgpu_sched_run_job_id :: int
  dma_fence_signaled_id :: int
  pushed :: "perf_record list"

text \<open>Modelled from the spec: the struct Stats of TracerThread.h, which is not part of
  the file: the windowed counters by kind, the total of lost records, the lost records
  per ring buffer and the timestamp at which the window began. The per-buffer map is
  keyed by the address of the ring buffer, here its index in \<open>ring_buffers\<close>.\<close>

record Stats =
  event_count_begin_ns :: "64 word"
  sched_switch_count :: "64 word"
  sample_count :: "64 word"
  uprobes_count :: "64 word"
  gpu_events_count :: "64 word"
  lost_count :: "64 word"
  lost_count_per_buffer :: "(nat \<times> 64 word) list"

record env =
  open_succeeds :: "perf_source \<Rightarrow> bool"
  mmap_succeeds :: "fd \<Rightarrow> bool"
  perf_event_get_id :: "fd \<Rightarrow> 64 word"
  GetTracepointId :: "string \<Rightarrow> string \<Rightarrow> int"
  GetNumCores :: nat
  GetCpusetCpus :: "int \<Rightarrow> cpu list"
  ListThreads :: "int \<Rightarrow> int list"
  iteration_rank :: "cpu \<times> fd \<Rightarrow> nat"
  produced :: "fd \<Rightarrow> perf_record list"
  MonotonicTimestampNs :: "nat \<Rightarrow> 64 word"
  size_of_uretprobe :: nat

text \<open>The tracer object together with the state of the world around it: the next file
  descriptor the kernel hands out (descriptors are never reused in the model, so a
  descriptor names one open file), the log, the calls received by the listener, the
  number of reads of \<open>exit_requested\<close> that still return false, and the number of
  times the clock has been read.\<close>

record tracer =
  listener_set :: bool
  pid :: int
  sampling_period_ns :: nat
  trace_context_switches :: bool
  trace_callstacks :: bool
  trace_instrumented_functions :: bool
  trace_gpu_driver_events :: bool
  instrumented_functions :: "instrumented_function list"
  tracing_fds :: "fd list"
  ring_buffers :: "PerfEventRingBuffer list"
  uprobes_fds :: "fd set"
  uprobes_ids_to_function :: "64 word \<rightharpoonup> instrumented_function"
  gpu_tracing_fds :: "fd set"
  deferred_events :: "PerfEvent list"
  stop_deferred_thread :: bool
  stats :: Stats
  gpu_event_processor :: "GpuTracepointEventProcessor option"
  next_fd :: nat
  trace :: "action list"
  listener_calls :: "listener_call list"
  exit_after :: nat
  clock_reads :: nat

datatype error = NoListener | CheckFailed | NullDereference | OutOfRange

subsection \<open>The kernel interface\<close>

text \<open>A successful open returns a fresh descriptor and is logged; a failed one
  returns -1.\<close>

definition perf_event_open :: "env \<Rightarrow> perf_source \<Rightarrow> tracer \<Rightarrow> fd \<times> tracer" where
  "perf_event_open e src s =
     (if open_succeeds e src
      then (int (next_fd s),
            s\<lparr>next_fd := Suc (next_fd s), trace := trace s @ [Open src (int (next_fd s))]\<rparr>)
      else (-1, s))"

text \<open>Modelled from the spec: the constructor and destructor of PerfEventRingBuffer,
  which are not part of the file. The ring buffer maps the descriptor it is given and
  is open when the mapping succeeded; it holds a non-owning handle, so it never closes
  the descriptor, and it unmaps when it is dropped.\<close>

definition new_PerfEventRingBuffer :: "env \<Rightarrow> fd \<Rightarrow> tracer \<Rightarrow> PerfEventRingBuffer \<times> tracer" where
  "new_PerfEventRingBuffer e f s =
     (if 0 \<le> f \<and> mmap_succeeds e f
      then (\<lparr>GetFileDescriptor = f, IsOpen = True, tail = 0\<rparr>, s\<lparr>trace := trace s @ [Mmap f]\<rparr>)
      else (\<lparr>GetFileDescriptor = f, IsOpen = False, tail = 0\<rparr>, s))"

definition unmap_actions :: "PerfEventRingBuffer list \<Rightarrow> action list" where
  "unmap_actions rbs = map (\<lambda>rb. Munmap (GetFileDescriptor rb)) (filter IsOpen rbs)"

definition drop_ring_buffers :: "PerfEventRingBuffer list \<Rightarrow> tracer \<Rightarrow> tracer" where
  "drop_ring_buffers rbs s = s\<lparr>trace := trace s @ unmap_actions rbs\<rparr>"

definition CloseFileDescriptors :: "fd list \<Rightarrow> tracer \<Rightarrow> tracer" where
  "CloseFileDescriptors fds s = s\<lparr>trace := trace s @ map Close fds\<rparr>"

text \<open>Projections of the log.\<close>

fun opened_fds :: "action list \<Rightarrow> fd list" where
  "opened_fds [] = []"
| "opened_fds (Open src f # as) = f # opened_fds as"
| "opened_fds (a # as) = opened_fds as"

fun closed_fds :: "action list \<Rightarrow> fd list" where
  "closed_fds [] = []"
| "closed_fds (Close f # as) = f # closed_fds as"
| "closed_fds (a # as) = closed_fds as"

fun enabled_fds :: "action list \<Rightarrow> fd list" where
  "enabled_fds [] = []"
| "enabled_fds (Enable f # as) = f # enabled_fds as"
| "enabled_fds (a # as) = enabled_fds as"

subsection \<open>Opening the GPU tracepoints\<close>

definition OpenRingBufferForGpuTracepoint ::
  "env \<Rightarrow> string \<Rightarrow> string \<Rightarrow> cpu \<Rightarrow> fd list \<Rightarrow> PerfEventRingBuffer list \<Rightarrow> tracer
     \<Rightarrow> bool \<times> fd list \<times> PerfEventRingBuffer list \<times> tracer" where
  "OpenRingBufferForGpuTracepoint e tracepoint_category tracepoint_name c
       gpu_fds rbs s =
     (case perf_event_open e (tracepoint_event tracepoint_category tracepoint_name c) s of
        (f, s1) \<Rightarrow>
          if f = -1 then (False, gpu_fds, rbs, s1)
          else (case new_PerfEventRingBuffer e f s1 of
                  (ring_buffer, s2) \<Rightarrow>
                    if \<not> IsOpen ring_buffer then (False, gpu_fds @ [f], rbs, s2)
                    else (True, gpu_fds @ [f], rbs @ [ring_buffer], s2)))"

text \<open>The loop over the CPUs of OpenGpuTracepoints. The first component is false
  when the loop was left by one of the three early returns, after
  CloseFileDescriptors.\<close>

fun open_gpu_cpus ::
  "env \<Rightarrow> cpu list \<Rightarrow> fd list \<Rightarrow> PerfEventRingBuffer list \<Rightarrow> tracer
     \<Rightarrow> bool \<times> fd list \<times> PerfEventRingBuffer list \<times> tracer" where
  "open_gpu_cpus e [] gpu_fds rbs s = (True, gpu_fds, rbs, s)"
| "open_gpu_cpus e (c # cpus) gpu_fds rbs s =
     (case OpenRingBufferForGpuTracepoint e ''amdgpu'' ''amdgpu_cs_ioctl'' c gpu_fds rbs s of
        (ok1, fds1, rbs1, s1) \<Rightarrow>
          if \<not> ok1 then (False, fds1, rbs1, CloseFileDescriptors fds1 s1)
          else
     (case OpenRingBufferForGpuTracepoint e ''amdgpu'' ''amdgpu_sched_run_job'' c fds1 rbs1 s1 of
        (ok2, fds2, rbs2, s2) \<Rightarrow>
          if \<not> ok2 then (False, fds2, rbs2, CloseFileDescriptors fds2 s2)
          else
     (case OpenRingBufferForGpuTracepoint e ''dma_fence'' ''dma_fence_signaled'' c fds2 rbs2 s2 of
        (ok3, fds3, rbs3, s3) \<Rightarrow>
          if \<not> ok3 then (False, fds3, rbs3, CloseFileDescriptors fds3 s3)
          else open_gpu_cpus e cpus fds3 rbs3 s3)))"

text \<open>On failure the local vector of ring buffers goes out of scope at the return,
  after the descriptors were closed, and its ring buffers unmap. On success the
  descriptors and the ring buffers are committed to the members.\<close>

definition OpenGpuTracepoints :: "env \<Rightarrow> cpu list \<Rightarrow> tracer \<Rightarrow> bool \<times> tracer" where
  "OpenGpuTracepoints e cpus s =
     (case open_gpu_cpus e cpus [] [] s of
        (ok, gpu_fds, rbs, s1) \<Rightarrow>
          if \<not> ok then (False, drop_ring_buffers rbs s1)
          else (True, s1\<lparr>gpu_tracing_fds := gpu_tracing_fds s1 \<union> set gpu_fds,
                         tracing_fds := tracing_fds s1 @ gpu_fds,
                         ring_buffers := ring_buffers s1 @ rbs\<rparr>))"

subsection \<open>Hash maps from CPU to file descriptor\<close>

text \<open>An \<^verbatim>\<open>absl::flat_hash_map<int32_t, int>\<close> is an association list in
  insertion order. \<open>emplace\<close> leaves an existing key alone. The order in which a
  hash map is iterated is not specified: the environment ranks the entries, and the
  iteration visits them by rank.\<close>

definition emplace :: "cpu \<Rightarrow> fd \<Rightarrow> (cpu \<times> fd) list \<Rightarrow> (cpu \<times> fd) list" where
  "emplace c f m = (if c \<in> fst ` set m then m else m @ [(c, f)])"

definition iterate :: "env \<Rightarrow> (cpu \<times> fd) list \<Rightarrow> (cpu \<times> fd) list" where
  "iterate e m = sort_key (iteration_rank e) m"

definition assign :: "cpu \<Rightarrow> fd \<Rightarrow> (cpu \<times> fd) list \<Rightarrow> (cpu \<times> fd) list" where
  "assign c f m = (if c \<in> fst ` set m then map (\<lambda>(k, v). if k = c then (k, f) else (k, v)) m
                   else m @ [(c, f)])"

definition perf_event_redirect :: "fd \<Rightarrow> fd \<Rightarrow> tracer \<Rightarrow> tracer" where
  "perf_event_redirect from_fd to_fd s = s\<lparr>trace := trace s @ [Redirect from_fd to_fd]\<rparr>"

subsection \<open>Opening the probes of the instrumented functions\<close>

text \<open>The loop over the CPUs that opens the entry and the return probe of one
  function. The first component is \<open>function_uprobes_open_error\<close>.\<close>

fun open_probes ::
  "env \<Rightarrow> instrumented_function \<Rightarrow> cpu list \<Rightarrow> (cpu \<times> fd) list \<Rightarrow> (cpu \<times> fd) list \<Rightarrow> tracer
     \<Rightarrow> bool \<times> (cpu \<times> fd) list \<times> (cpu \<times> fd) list \<times> tracer" where
  "open_probes e fn [] function_uprobes_fds_per_cpu function_uretprobes_fds_per_cpu s =
     (False, function_uprobes_fds_per_cpu, function_uretprobes_fds_per_cpu, s)"
| "open_probes e fn (c # cpus) function_uprobes_fds_per_cpu function_uretprobes_fds_per_cpu s =
     (case perf_event_open e (uprobes_stack_event (BinaryPath fn) (FileOffset fn) c) s of
        (uprobes_fd, s1) \<Rightarrow>
          if uprobes_fd < 0
          then (True, function_uprobes_fds_per_cpu, function_uretprobes_fds_per_cpu, s1)
          else
     (case perf_event_open e (uretprobes_event (BinaryPath fn) (FileOffset fn) c) s1 of
        (uretprobes_fd, s2) \<Rightarrow>
          if uretprobes_fd < 0
          then (True, emplace c uprobes_fd function_uprobes_fds_per_cpu,
                function_uretprobes_fds_per_cpu, s2)
          else open_probes e fn cpus (emplace c uprobes_fd function_uprobes_fds_per_cpu)
                 (emplace c uretprobes_fd function_uretprobes_fds_per_cpu) s2))"

text \<open>Recording the association between stream ids and the function: \<open>emplace\<close> on
  the member map, which keeps an existing entry.\<close>

fun record_stream_ids ::
  "env \<Rightarrow> instrumented_function \<Rightarrow> fd list
     \<Rightarrow> (64 word \<rightharpoonup> instrumented_function) \<Rightarrow> (64 word \<rightharpoonup> instrumented_function)" where
  "record_stream_ids e fn [] m = m"
| "record_stream_ids e fn (f # fds) m =
     record_stream_ids e fn fds
       (if perf_event_get_id e f \<in> dom m then m else m(perf_event_get_id e f \<mapsto> fn))"

text \<open>The loop that redirects the probes of one function, CPU by CPU, to one ring
  buffer per CPU. \<open>at\<close> on a missing key throws.\<close>

fun redirect_probes ::
  "env \<Rightarrow> cpu list \<Rightarrow> (cpu \<times> fd) list \<Rightarrow> (cpu \<times> fd) list \<Rightarrow> (cpu \<times> fd) list \<Rightarrow> tracer
     \<Rightarrow> error + ((cpu \<times> fd) list \<times> tracer)" where
  "redirect_probes e [] up uret uprobes_ring_buffer_fds_per_cpu s =
     Inr (uprobes_ring_buffer_fds_per_cpu, s)"
| "redirect_probes e (c # cpus) up uret uprobes_ring_buffer_fds_per_cpu s =
     (case (map_of up c, map_of uret c) of
        (Some uprobes_fd, Some uretprobes_fd) \<Rightarrow>
          (case map_of uprobes_ring_buffer_fds_per_cpu c of
             Some ring_buffer_fd \<Rightarrow>
               redirect_probes e cpus up uret uprobes_ring_buffer_fds_per_cpu
                 (perf_event_redirect uretprobes_fd ring_buffer_fd
                    (perf_event_redirect uprobes_fd ring_buffer_fd s))
           | None \<Rightarrow>
               (case new_PerfEventRingBuffer e uprobes_fd s of
                  (ring_buffer, s1) \<Rightarrow>
                    redirect_probes e cpus up uret
                      (assign c uprobes_fd uprobes_ring_buffer_fds_per_cpu)
                      (perf_event_redirect uretprobes_fd uprobes_fd
                         (s1\<lparr>ring_buffers := ring_buffers s1 @ [ring_buffer],
                              uprobes_fds := insert uprobes_fd (uprobes_fds s1)\<rparr>))))
      | _ \<Rightarrow> Inl OutOfRange)"

text \<open>The state the loop over the instrumented functions carries: the ring buffer of
  each CPU, \<open>perf_event_open_errors\<close>, \<open>uprobes_event_open_errors\<close> and the tracer.\<close>

type_synonym probes_state = "(cpu \<times> fd) list \<times> bool \<times> bool \<times> tracer"

definition instrument_function ::
  "env \<Rightarrow> cpu list \<Rightarrow> instrumented_function \<Rightarrow> probes_state \<Rightarrow> error + probes_state" where
  "instrument_function e cpuset_cpus fn st =
     (case st of (uprobes_ring_buffer_fds_per_cpu, perf_event_open_errors,
                  uprobes_event_open_errors, s) \<Rightarrow>
      (case open_probes e fn cpuset_cpus [] [] s of
         (function_uprobes_open_error, up, uret, s1) \<Rightarrow>
           if function_uprobes_open_error
           then Inr (uprobes_ring_buffer_fds_per_cpu, True, True,
                     CloseFileDescriptors (map snd (iterate e uret))
                       (CloseFileDescriptors (map snd (iterate e up)) s1))
           else
             (let s2 = s1\<lparr>tracing_fds :=
                            tracing_fds s1 @ map snd (iterate e uret) @ map snd (iterate e up)\<rparr>;
                  s3 = s2\<lparr>uprobes_ids_to_function :=
                            record_stream_ids e fn (map snd (iterate e uret))
                              (record_stream_ids e fn (map snd (iterate e up))
                                 (uprobes_ids_to_function s2))\<rparr>
              in case redirect_probes e cpuset_cpus up uret uprobes_ring_buffer_fds_per_cpu s3 of
                   Inl err \<Rightarrow> Inl err
                 | Inr (m, s4) \<Rightarrow>
                     Inr (m, perf_event_open_errors, uprobes_event_open_errors, s4))))"

fun instrument_functions ::
  "env \<Rightarrow> cpu list \<Rightarrow> instrumented_function list \<Rightarrow> probes_state \<Rightarrow> error + probes_state" where
  "instrument_functions e cpuset_cpus [] st = Inr st"
| "instrument_functions e cpuset_cpus (fn # fns) st =
     (case instrument_function e cpuset_cpus fn st of
        Inl err \<Rightarrow> Inl err
      | Inr st1 \<Rightarrow> instrument_functions e cpuset_cpus fns st1)"

subsection \<open>Opening one source per CPU with a ring buffer of its own\<close>

text \<open>The loops for context switches, mmap/task notifications and sampling have the
  same body: open, construct the ring buffer, commit both when the ring buffer is
  open, and otherwise set \<open>perf_event_open_errors\<close>. The local ring buffer that is not
  committed is not open, so leaving its scope unmaps nothing.\<close>

fun open_per_cpu ::
  "env \<Rightarrow> (cpu \<Rightarrow> perf_source) \<Rightarrow> cpu list \<Rightarrow> bool \<times> tracer \<Rightarrow> bool \<times> tracer" where
  "open_per_cpu e src [] st = st"
| "open_per_cpu e src (c # cpus) (perf_event_open_errors, s) =
     (case perf_event_open e (src c) s of
        (f, s1) \<Rightarrow>
          (case new_PerfEventRingBuffer e f s1 of
             (ring_buffer, s2) \<Rightarrow>
               if IsOpen ring_buffer
               then open_per_cpu e src cpus
                      (perf_event_open_errors,
                       s2\<lparr>tracing_fds := tracing_fds s2 @ [f],
                           ring_buffers := ring_buffers s2 @ [ring_buffer]\<rparr>)
               else open_per_cpu e src cpus (True, s2)))"

subsection \<open>Reading ring buffers\<close>

text \<open>Modelled from the spec: the reader of PerfEventRingBuffer, which is not part of
  the file: \<open>HasNewData\<close> holds while records are unread, \<open>ReadHeader\<close> peeks the
  next record without advancing, and \<open>ConsumeRecord\<close> and \<open>SkipRecord\<close> advance past
  it. The ring buffer is addressed by its index in \<open>ring_buffers\<close>.\<close>

definition HasNewData :: "env \<Rightarrow> PerfEventRingBuffer \<Rightarrow> bool" where
  "HasNewData e rb = (tail rb < length (produced e (GetFileDescriptor rb)))"

definition ReadHeader :: "env \<Rightarrow> PerfEventRingBuffer \<Rightarrow> perf_record" where
  "ReadHeader e rb = produced e (GetFileDescriptor rb) ! tail rb"

definition SkipRecord :: "nat \<Rightarrow> tracer \<Rightarrow> tracer" where
  "SkipRecord i s =
     s\<lparr>ring_buffers := (ring_buffers s)[i := (ring_buffers s ! i)\<lparr>tail := Suc (tail (ring_buffers s ! i))\<rparr>]\<rparr>"

definition ConsumeRecord :: "nat \<Rightarrow> tracer \<Rightarrow> tracer" where
  "ConsumeRecord i s = SkipRecord i s"

definition read_clock :: "env \<Rightarrow> tracer \<Rightarrow> 64 word \<times> tracer" where
  "read_clock e s = (MonotonicTimestampNs e (clock_reads s), s\<lparr>clock_reads := Suc (clock_reads s)\<rparr>)"

definition call_listener :: "listener_call \<Rightarrow> tracer \<Rightarrow> tracer" where
  "call_listener c s = s\<lparr>listener_calls := listener_calls s @ [c]\<rparr>"

definition DeferEvent :: "PerfEvent \<Rightarrow> tracer \<Rightarrow> tracer" where
  "DeferEvent ev s = s\<lparr>deferred_events := deferred_events s @ [ev]\<rparr>"

subsection \<open>Statistics\<close>

text \<open>Modelled from the spec: Stats::Reset, which is not part of the file: all
  counters return to zero, the per-buffer losses are cleared and the window begins at
  the current time.\<close>

definition Stats_Reset :: "env \<Rightarrow> tracer \<Rightarrow> tracer" where
  "Stats_Reset e s =
     (case read_clock e s of
        (now, s1) \<Rightarrow>
          s1\<lparr>stats := \<lparr>event_count_begin_ns = now, sched_switch_count = 0, sample_count = 0,
                        uprobes_count = 0, gpu_events_count = 0, lost_count = 0,
                        lost_count_per_buffer = []\<rparr>\<rparr>)"

text \<open>\<open>lost_count_per_buffer[ring_buffer] += n\<close>: a missing key starts at zero.\<close>

fun add_lost :: "nat \<Rightarrow> 64 word \<Rightarrow> (nat \<times> 64 word) list \<Rightarrow> (nat \<times> 64 word) list" where
  "add_lost i n [] = [(i, n)]"
| "add_lost i n ((k, v) # m) = (if k = i then (k, v + n) # m else (k, v) # add_lost i n m)"

definition PrintStatsIfTimerElapsed :: "env \<Rightarrow> tracer \<Rightarrow> tracer" where
  "PrintStatsIfTimerElapsed e s =
     (case read_clock e s of
        (now, s1) \<Rightarrow>
          if event_count_begin_ns (stats s1) + 5 * 1000000000 < now
          then (case read_clock e s1 of (now2, s2) \<Rightarrow> Stats_Reset e s2)
          else s1)"

subsection \<open>Processing records\<close>

definition ProcessContextSwitchEvent :: "perf_record \<Rightarrow> nat \<Rightarrow> tracer \<Rightarrow> tracer" where
  "ProcessContextSwitchEvent r i s =
     (let s1 = ConsumeRecord i s;
          tid = GetTid r;
          c = (ucast (GetCpu r) :: 16 word);
          time = GetTimestamp r;
          s2 = (if IsSwitchOut r then call_listener (OnContextSwitchOut tid c time) s1
                else call_listener (OnContextSwitchIn tid c time) s1)
      in s2\<lparr>stats := (stats s2)\<lparr>sched_switch_count := sched_switch_count (stats s2) + 1\<rparr>\<rparr>)"

definition ProcessContextSwitchCpuWideEvent :: "perf_record \<Rightarrow> nat \<Rightarrow> tracer \<Rightarrow> tracer" where
  "ProcessContextSwitchCpuWideEvent r i s =
     (let s1 = ConsumeRecord i s;
          tid = GetTid r;
          c = (ucast (GetCpu r) :: 16 word);
          time = GetTimestamp r;
          s2 = (if tid \<noteq> 0
                then (if IsSwitchOut r then call_listener (OnContextSwitchOut tid c time) s1
                      else call_listener (OnContextSwitchIn tid c time) s1)
                else s1)
      in s2\<lparr>stats := (stats s2)\<lparr>sched_switch_count := sched_switch_count (stats s2) + 1\<rparr>\<rparr>)"

definition ProcessForkEvent :: "perf_record \<Rightarrow> nat \<Rightarrow> tracer \<Rightarrow> tracer" where
  "ProcessForkEvent r i s =
     (let s1 = ConsumeRecord i s
      in if GetPid r \<noteq> pid s1 then s1 else call_listener (OnTid (GetTid r)) s1)"

definition ProcessExitEvent :: "perf_record \<Rightarrow> nat \<Rightarrow> tracer \<Rightarrow> tracer" where
  "ProcessExitEvent r i s =
     (let s1 = ConsumeRecord i s
      in if GetPid r \<noteq> pid s1 then s1 else s1)"

definition ProcessMmapEvent :: "env \<Rightarrow> perf_record \<Rightarrow> nat \<Rightarrow> tracer \<Rightarrow> tracer" where
  "ProcessMmapEvent e r i s =
     (let p = ReadMmapRecordPid r;
          s1 = SkipRecord i s
      in if p \<noteq> pid s1 then s1
         else (case read_clock e s1 of
                 (now, s2) \<Rightarrow>
                   DeferEvent (MapsPerfEvent now (GetFileDescriptor (ring_buffers s2 ! i))) s2))"

definition ProcessSampleEvent :: "env \<Rightarrow> perf_record \<Rightarrow> nat \<Rightarrow> tracer \<Rightarrow> error + tracer" where
  "ProcessSampleEvent e r i s =
     (let f = GetFileDescriptor (ring_buffers s ! i);
          is_probe = (f \<in> uprobes_fds s);
          is_gpu_event = (f \<in> gpu_tracing_fds s)
      in if is_probe \<and> is_gpu_event then Inl CheckFailed
         else
           (let is_uretprobe = (is_probe \<and> header_size r = size_of_uretprobe e);
                is_uprobe = (is_probe \<and> \<not> is_uretprobe);
                p = (if is_uretprobe then ReadUretprobesRecordPid r else ReadSampleRecordPid r)
            in if p \<noteq> pid s \<and> \<not> is_gpu_event then Inr (SkipRecord i s)
               else if is_uprobe then
                 (case uprobes_ids_to_function (ConsumeRecord i s) (GetStreamId r) of
                    None \<Rightarrow> Inl OutOfRange
                  | Some fn \<Rightarrow>
                      (let s1 = DeferEvent (UprobesWithStackPerfEvent r fn f) (ConsumeRecord i s)
                       in Inr (s1\<lparr>stats := (stats s1)\<lparr>uprobes_count := uprobes_count (stats s1) + 1\<rparr>\<rparr>)))
               else if is_uretprobe then
                 (case uprobes_ids_to_function (ConsumeRecord i s) (GetStreamId r) of
                    None \<Rightarrow> Inl OutOfRange
                  | Some fn \<Rightarrow>
                      (let s1 = DeferEvent (UretprobesPerfEvent r fn f) (ConsumeRecord i s)
                       in Inr (s1\<lparr>stats := (stats s1)\<lparr>uprobes_count := uprobes_count (stats s1) + 1\<rparr>\<rparr>)))
               else if is_gpu_event then
                 (case gpu_event_processor (ConsumeRecord i s) of
                    None \<Rightarrow> Inl NullDereference
                  | Some proc \<Rightarrow>
                      (let s1 = (ConsumeRecord i s)\<lparr>gpu_event_processor :=
                                   Some (proc\<lparr>pushed := pushed proc @ [r]\<rparr>)\<rparr>
                       in Inr (s1\<lparr>stats := (stats s1)\<lparr>gpu_events_count := gpu_events_count (stats s1) + 1\<rparr>\<rparr>)))
               else
                 (let s1 = DeferEvent (StackSamplePerfEvent r f) (ConsumeRecord i s)
                  in Inr (s1\<lparr>stats := (stats s1)\<lparr>sample_count := sample_count (stats s1) + 1\<rparr>\<rparr>))))"

definition ProcessLostEvent :: "perf_record \<Rightarrow> nat \<Rightarrow> tracer \<Rightarrow> tracer" where
  "ProcessLostEvent r i s =
     (let s1 = ConsumeRecord i s
      in s1\<lparr>stats := (stats s1)\<lparr>lost_count := lost_count (stats s1) + GetNumLost r,
                                 lost_count_per_buffer :=
                                   add_lost i (GetNumLost r) (lost_count_per_buffer (stats s1))\<rparr>\<rparr>)"

text \<open>The switch on \<open>header.type\<close> in the polling loop.\<close>

definition process_record :: "env \<Rightarrow> perf_record \<Rightarrow> nat \<Rightarrow> tracer \<Rightarrow> error + tracer" where
  "process_record e r i s =
     (if header_type r = PERF_RECORD_SWITCH then Inr (ProcessContextSwitchEvent r i s)
      else if header_type r = PERF_RECORD_SWITCH_CPU_WIDE
        then Inr (ProcessContextSwitchCpuWideEvent r i s)
      else if header_type r = PERF_RECORD_FORK then Inr (ProcessForkEvent r i s)
      else if header_type r = PERF_RECORD_EXIT then Inr (ProcessExitEvent r i s)
      else if header_type r = PERF_RECORD_MMAP then Inr (ProcessMmapEvent e r i s)
      else if header_type r = PERF_RECORD_SAMPLE then ProcessSampleEvent e r i s
      else if header_type r = PERF_RECORD_LOST then Inr (ProcessLostEvent r i s)
      else Inr (SkipRecord i s))"

subsection \<open>The polling loop\<close>

text \<open>\<open>exit_requested\<close> is set by another thread. A read of it returns false
  \<open>exit_after\<close> more times and true from then on.\<close>

definition read_exit_requested :: "tracer \<Rightarrow> bool \<times> tracer" where
  "read_exit_requested s = (exit_after s = 0, s\<lparr>exit_after := exit_after s - 1\<rparr>)"

text \<open>The inner loop: up to \<open>ROUND_ROBIN_POLLING_BATCH_SIZE\<close> records of one ring
  buffer. The boolean is \<open>last_iteration_saw_events\<close>.\<close>

fun poll_ring_buffer :: "env \<Rightarrow> nat \<Rightarrow> nat \<Rightarrow> bool \<times> tracer \<Rightarrow> error + (bool \<times> tracer)" where
  "poll_ring_buffer e 0 i st = Inr st"
| "poll_ring_buffer e (Suc n) i (saw, s) =
     (case read_exit_requested s of
        (exit_now, s1) \<Rightarrow>
          if exit_now then Inr (saw, s1)
          else if \<not> HasNewData e (ring_buffers s1 ! i) then Inr (saw, s1)
          else (case process_record e (ReadHeader e (ring_buffers s1 ! i)) i s1 of
                  Inl err \<Rightarrow> Inl err
                | Inr s2 \<Rightarrow> poll_ring_buffer e n i (True, s2)))"

text \<open>The loop over the ring buffers, by index.\<close>

fun poll_ring_buffers :: "env \<Rightarrow> nat list \<Rightarrow> bool \<times> tracer \<Rightarrow> error + (bool \<times> tracer)" where
  "poll_ring_buffers e [] st = Inr st"
| "poll_ring_buffers e (i # is) (saw, s) =
     (case read_exit_requested s of
        (exit_now, s1) \<Rightarrow>
          if exit_now then Inr (saw, s1)
          else (case poll_ring_buffer e ROUND_ROBIN_POLLING_BATCH_SIZE i (saw, s1) of
                  Inl err \<Rightarrow> Inl err
                | Inr st1 \<Rightarrow> poll_ring_buffers e is st1))"

text \<open>One iteration of the while loop, after its condition was read as false.\<close>

definition tracer_iteration :: "env \<Rightarrow> bool \<Rightarrow> tracer \<Rightarrow> error + (bool \<times> tracer)" where
  "tracer_iteration e last_iteration_saw_events s =
     (let s1 = (if \<not> last_iteration_saw_events then PrintStatsIfTimerElapsed e s else s)
      in poll_ring_buffers e [0..<length (ring_buffers s1)] (False, s1))"

text \<open>No step of the polling loop gives \<open>exit_requested\<close> a later deadline; the
  while loop below terminates for that reason.\<close>

lemma exit_after_SkipRecord: "exit_after (SkipRecord i s) = exit_after s"
  by (simp add: SkipRecord_def)

lemma exit_after_Stats_Reset: "exit_after (Stats_Reset e s) = exit_after s"
  by (simp add: Stats_Reset_def read_clock_def)

lemma exit_after_PrintStatsIfTimerElapsed:
  "exit_after (PrintStatsIfTimerElapsed e s) = exit_after s"
  by (simp add: PrintStatsIfTimerElapsed_def read_clock_def exit_after_Stats_Reset)

lemma exit_after_ProcessSampleEvent:
  "ProcessSampleEvent e r i s = Inr s' \<Longrightarrow> exit_after s' = exit_after s"
  by (auto simp: ProcessSampleEvent_def Let_def ConsumeRecord_def DeferEvent_def
        exit_after_SkipRecord split: if_splits option.splits)

lemma exit_after_process_record:
  "process_record e r i s = Inr s' \<Longrightarrow> exit_after s' = exit_after s"
  by (auto simp: process_record_def ProcessContextSwitchEvent_def
        ProcessContextSwitchCpuWideEvent_def ProcessForkEvent_def ProcessExitEvent_def
        ProcessMmapEvent_def ProcessLostEvent_def Let_def ConsumeRecord_def DeferEvent_def
        call_listener_def read_clock_def exit_after_SkipRecord
        exit_after_ProcessSampleEvent split: if_splits)

lemma exit_after_poll_ring_buffer:
  "poll_ring_buffer e n i st = Inr st' \<Longrightarrow> exit_after (snd st') \<le> exit_after (snd st)"
proof (induction n arbitrary: st)
  case 0
  then show ?case by simp
next
  case (Suc n)
  obtain saw s where st: "st = (saw, s)" by (cases st)
  show ?case
  proof (cases "exit_after s = 0 \<or> \<not> HasNewData e (ring_buffers (s\<lparr>exit_after := exit_after s - 1\<rparr>) ! i)")
    case True
    with Suc.prems st show ?thesis
      by (auto simp: read_exit_requested_def split: if_splits)
  next
    case False
    let ?s1 = "s\<lparr>exit_after := exit_after s - 1\<rparr>"
    from False Suc.prems st obtain s2 where
      p: "process_record e (ReadHeader e (ring_buffers ?s1 ! i)) i ?s1 = Inr s2" and
      r: "poll_ring_buffer e n i (True, s2) = Inr st'"
      by (auto simp: read_exit_requested_def split: sum.splits)
    from exit_after_process_record [OF p] have "exit_after s2 \<le> exit_after s" by simp
    moreover from Suc.IH [OF r] have "exit_after (snd st') \<le> exit_after s2" by simp
    ultimately show ?thesis using st by simp
  qed
qed

lemma exit_after_poll_ring_buffers:
  "poll_ring_buffers e is st = Inr st' \<Longrightarrow> exit_after (snd st') \<le> exit_after (snd st)"
proof (induction "is" arbitrary: st)
  case Nil
  then show ?case by simp
next
  case (Cons i "is")
  obtain saw s where st: "st = (saw, s)" by (cases st)
  show ?case
  proof (cases "exit_after s = 0")
    case True
    with Cons.prems st show ?thesis by (auto simp: read_exit_requested_def)
  next
    case False
    let ?s1 = "s\<lparr>exit_after := exit_after s - 1\<rparr>"
    from False Cons.prems st obtain st1 where
      p: "poll_ring_buffer e ROUND_ROBIN_POLLING_BATCH_SIZE i (saw, ?s1) = Inr st1" and
      r: "poll_ring_buffers e is st1 = Inr st'"
      by (auto simp: read_exit_requested_def split: sum.splits)
    from exit_after_poll_ring_buffer [OF p] have "exit_after (snd st1) \<le> exit_after s" by simp
    moreover from Cons.IH [OF r] have "exit_after (snd st') \<le> exit_after (snd st1)" .
    ultimately show ?thesis using st by simp
  qed
qed

lemma exit_after_tracer_iteration:
  "tracer_iteration e saw s = Inr st' \<Longrightarrow> exit_after (snd st') \<le> exit_after s"
proof -
  assume a: "tracer_iteration e saw s = Inr st'"
  define s1 where "s1 = (if \<not> saw then PrintStatsIfTimerElapsed e s else s)"
  have "exit_after s1 = exit_after s"
    by (simp add: s1_def exit_after_PrintStatsIfTimerElapsed)
  moreover from a have "poll_ring_buffers e [0..<length (ring_buffers s1)] (False, s1) = Inr st'"
    by (cases saw) (simp_all add: tracer_iteration_def s1_def Let_def)
  from exit_after_poll_ring_buffers [OF this] have "exit_after (snd st') \<le> exit_after s1"
    by simp
  ultimately show ?thesis by simp
qed

text \<open>The while loop of \<open>Run\<close>.\<close>

function main_loop :: "env \<Rightarrow> bool \<Rightarrow> tracer \<Rightarrow> error + tracer" where
  "main_loop e last_iteration_saw_events s =
     (case read_exit_requested s of
        (exit_now, s1) \<Rightarrow>
          if exit_now then Inr s1
          else (case tracer_iteration e last_iteration_saw_events s1 of
                  Inl err \<Rightarrow> Inl err
                | Inr (saw, s2) \<Rightarrow> main_loop e saw s2))"
  by pat_completeness auto
termination
proof (relation "measure (\<lambda>(e, saw, s). exit_after s)")
  show "wf (measure (\<lambda>(e, saw, s). exit_after s))" by simp
next
  fix e last_iteration_saw_events s x1 x2 x2a x1a x2b
  assume a: "(x1, x2) = read_exit_requested s" "\<not> x1"
    "tracer_iteration e last_iteration_saw_events x2 = Inr x2a" "(x1a, x2b) = x2a"
  from a(1,2) have "exit_after s \<noteq> 0" "exit_after x2 = exit_after s - 1"
    by (auto simp: read_exit_requested_def)
  moreover from exit_after_tracer_iteration [OF a(3)] a(4)
  have "exit_after x2b \<le> exit_after x2" by auto
  ultimately show "((e, x1a, x2b), e, last_iteration_saw_events, s)
      \<in> measure (\<lambda>(e, saw, s). exit_after s)"
    by simp
qed

declare main_loop.simps [simp del]

subsection \<open>Run\<close>

definition Reset :: "tracer \<Rightarrow> tracer" where
  "Reset s = s\<lparr>tracing_fds := [], ring_buffers := [], uprobes_fds := {},
                uprobes_ids_to_function := Map.empty, gpu_tracing_fds := {},
                deferred_events := [], stop_deferred_thread := False\<rparr>"

definition InitGpuTracepointEventProcessor :: "env \<Rightarrow> tracer \<Rightarrow> bool \<times> tracer" where
  "InitGpuTracepointEventProcessor e s =
     (let cs_ioctl_id = GetTracepointId e ''amdgpu'' ''amdgpu_cs_ioctl''
      in if cs_ioctl_id = -1 then (False, s)
         else
     (let sched_run_job_id = GetTracepointId e ''amdgpu'' ''amdgpu_sched_run_job''
      in if sched_run_job_id = -1 then (False, s)
         else
     (let fence_signaled_id = GetTracepointId e ''dma_fence'' ''dma_fence_signaled''
      in if fence_signaled_id = -1 then (False, s)
         else (True, s\<lparr>gpu_event_processor :=
                         Some \<lparr>amdgpu_cs_ioctl_id = cs_ioctl_id,
                               amdgpu_sched_run_job_id = sched_run_job_id,
                               dma_fence_signaled_id = fence_signaled_id,
                               pushed = []\<rparr>\<rparr>))))"

definition all_cpus :: "env \<Rightarrow> cpu list" where
  "all_cpus e = map int [0..<GetNumCores e]"

definition cpuset_cpus :: "env \<Rightarrow> tracer \<Rightarrow> cpu list" where
  "cpuset_cpus e s = (if GetCpusetCpus e (pid s) = [] then all_cpus e else GetCpusetCpus e (pid s))"

text \<open>The opening phase of \<open>Run\<close>, from \<open>Reset\<close> to the call of OpenGpuTracepoints.
  The result carries \<open>perf_event_open_errors\<close>, \<open>uprobes_event_open_errors\<close> and
  \<open>gpu_event_open_errors\<close>.\<close>

definition open_sources :: "env \<Rightarrow> tracer \<Rightarrow> error + (bool \<times> bool \<times> bool \<times> tracer)" where
  "open_sources e s0 =
     (let s = Reset s0;
          st1 = (if trace_context_switches s
                 then open_per_cpu e context_switch_event (all_cpus e) (False, s)
                 else (False, s));
          s2 = snd (InitGpuTracepointEventProcessor e (snd st1))
      in case (if trace_instrumented_functions s2
               then instrument_functions e (cpuset_cpus e s2) (instrumented_functions s2)
                      ([], fst st1, False, s2)
               else Inr ([], fst st1, False, s2)) of
           Inl err \<Rightarrow> Inl err
         | Inr (m, perf_errors3, uprobes_event_open_errors, s3) \<Rightarrow>
             (let st4 = open_per_cpu e mmap_task_event (cpuset_cpus e s3) (perf_errors3, s3);
                  st5 = (if trace_callstacks (snd st4)
                         then open_per_cpu e (sample_event (sampling_period_ns (snd st4)))
                                (cpuset_cpus e (snd st4)) st4
                         else st4);
                  st6 = (if trace_gpu_driver_events (snd st5)
                         then (case OpenGpuTracepoints e (all_cpus e) (snd st5) of
                                 (ok, s6) \<Rightarrow> (\<not> ok, s6))
                         else (False, snd st5))
              in Inr (fst st5, uprobes_event_open_errors, fst st6, snd st6)))"

text \<open>Start recording: enable every tracked descriptor in order, report the threads
  of the process and reset the statistics.\<close>

definition start_recording :: "env \<Rightarrow> tracer \<Rightarrow> tracer" where
  "start_recording e s =
     (let s1 = s\<lparr>trace := trace s @ map Enable (tracing_fds s)\<rparr>;
          s2 = s1\<lparr>listener_calls := listener_calls s1 @ map OnTid (ListThreads e (pid s1))\<rparr>
      in Stats_Reset e s2)"

text \<open>The deferred worker runs concurrently with the polling loop. The model runs it
  at the join only: its last iteration takes what is left in the deferred queue, adds
  each event to the processor under its origin descriptor and processes the old
  events.\<close>

definition ProcessDeferredEvents :: "tracer \<Rightarrow> tracer" where
  "ProcessDeferredEvents s =
     (if deferred_events s = [] then s
      else s\<lparr>deferred_events := [],
             trace := trace s @ map (\<lambda>ev. AddEvent (GetOriginFileDescriptor ev) ev) (deferred_events s)
                        @ [ProcessOldEvents]\<rparr>)"

text \<open>The end of \<open>Run\<close>, after the while loop has seen \<open>exit_requested\<close>.\<close>

definition shutdown :: "tracer \<Rightarrow> tracer" where
  "shutdown s =
     (let s1 = s\<lparr>stop_deferred_thread := True, trace := trace s @ [StopDeferredThread]\<rparr>;
          s2 = ProcessDeferredEvents s1;
          s3 = s2\<lparr>trace := trace s2 @ [JoinDeferredThread]\<rparr>;
          s4 = s3\<lparr>trace := trace s3 @ [ProcessAllEvents]\<rparr>;
          s5 = s4\<lparr>trace := trace s4 @ map Disable (tracing_fds s4)\<rparr>;
          s6 = (drop_ring_buffers (ring_buffers s5) s5)\<lparr>ring_buffers := []\<rparr>
      in CloseFileDescriptors (tracing_fds s6) s6)"

definition Run :: "env \<Rightarrow> tracer \<Rightarrow> error + tracer" where
  "Run e s0 =
     (if \<not> listener_set s0 then Inl NoListener
      else (case open_sources e s0 of
              Inl err \<Rightarrow> Inl err
            | Inr (perf_event_open_errors, uprobes_event_open_errors, gpu_event_open_errors, s) \<Rightarrow>
                (case main_loop e False (start_recording e s) of
                   Inl err \<Rightarrow> Inl err
                 | Inr s1 \<Rightarrow> Inr (shutdown s1))))"

section \<open>Vocabulary of the properties\<close>

text \<open>The tracer as the opening phase leaves it (the tracer itself when the phase
  throws).\<close>

definition opened_tracer :: "env \<Rightarrow> tracer \<Rightarrow> tracer" where
  "opened_tracer e s =
     (case open_sources e s of
        Inl err \<Rightarrow> s
      | Inr (perf_event_open_errors, uprobes_event_open_errors, gpu_event_open_errors, s') \<Rightarrow> s')"

text \<open>The three GPU tracepoints of every CPU, in the order OpenGpuTracepoints opens
  them, and what it means that each source of a list opens and maps, the first one on
  descriptor \<open>n\<close>.\<close>

definition gpu_tracepoints :: "cpu list \<Rightarrow> perf_source list" where
  "gpu_tracepoints cpus =
     concat (map (\<lambda>c. [tracepoint_event ''amdgpu'' ''amdgpu_cs_ioctl'' c,
                        tracepoint_event ''amdgpu'' ''amdgpu_sched_run_job'' c,
                        tracepoint_event ''dma_fence'' ''dma_fence_signaled'' c]) cpus)"

fun all_succeed :: "env \<Rightarrow> nat \<Rightarrow> perf_source list \<Rightarrow> bool" where
  "all_succeed e n [] = True"
| "all_succeed e n (src # srcs) =
     (open_succeeds e src \<and> mmap_succeeds e (int n) \<and> all_succeed e (Suc n) srcs)"

text \<open>What the loop of OpenGpuTracepoints returns, for the local vectors and the
  tracer it is started with.\<close>

definition gpu_post ::
  "env \<Rightarrow> cpu list \<Rightarrow> fd list \<Rightarrow> PerfEventRingBuffer list \<Rightarrow> tracer
     \<Rightarrow> bool \<times> fd list \<times> PerfEventRingBuffer list \<times> tracer \<Rightarrow> bool" where
  "gpu_post e cpus fds rbs s res =
     (case res of (ok, fds', rbs', s') \<Rightarrow>
        ok = all_succeed e (next_fd s) (gpu_tracepoints cpus) \<and>
        s' = s\<lparr>next_fd := next_fd s', trace := trace s'\<rparr> \<and>
        (\<exists>new. fds' = fds @ new \<and>
           opened_fds (trace s') = opened_fds (trace s) @ new \<and>
           closed_fds (trace s') = closed_fds (trace s) @ (if ok then [] else fds') \<and>
           (ok \<longrightarrow> new = map int [next_fd s..<next_fd s + 3 * length cpus] \<and>
                 (\<exists>nrb. rbs' = rbs @ nrb \<and> map GetFileDescriptor nrb = new \<and>
                        list_all IsOpen nrb))))"

text \<open>The opens of entry and return probes in the log, with the descriptor each returned.\<close>

fun probe_opens :: "action list \<Rightarrow> (perf_source \<times> fd) list" where
  "probe_opens [] = []"
| "probe_opens (Open (uprobes_stack_event p off c) f # as) =
     (uprobes_stack_event p off c, f) # probe_opens as"
| "probe_opens (Open (uretprobes_event p off c) f # as) =
     (uretprobes_event p off c, f) # probe_opens as"
| "probe_opens (a # as) = probe_opens as"

text \<open>\<open>x\<close> occurs in the list before an occurrence of \<open>y\<close>.\<close>

definition before :: "'a \<Rightarrow> 'a \<Rightarrow> 'a list \<Rightarrow> bool" where
  "before x y xs = (\<exists>as bs cs. xs = as @ x # bs @ y # cs)"

text \<open>The tracked descriptors are distinct, every descriptor of the tracer and of the log
  was handed out by the kernel, and no tracked descriptor has been closed.\<close>

definition tracked_ok :: "tracer \<Rightarrow> bool" where
  "tracked_ok s =
     (distinct (tracing_fds s) \<and>
      (\<forall>f\<in>set (tracing_fds s). f < int (next_fd s)) \<and>
      (\<forall>f\<in>set (opened_fds (trace s)). f < int (next_fd s)) \<and>
      (\<forall>f\<in>set (closed_fds (trace s)). f < int (next_fd s)) \<and>
      set (closed_fds (trace s)) \<inter> set (tracing_fds s) = {})"

text \<open>A later state of the opening phase: the tracked descriptors, the opens and the
  closes grow at the end, by descriptors handed out in between, and no new close is of a
  newly tracked descriptor.\<close>

definition extends :: "tracer \<Rightarrow> tracer \<Rightarrow> bool" where
  "extends s s' =
     (next_fd s \<le> next_fd s' \<and>
      (\<exists>nt no nc.
         tracing_fds s' = tracing_fds s @ nt \<and>
         opened_fds (trace s') = opened_fds (trace s) @ no \<and>
         closed_fds (trace s') = closed_fds (trace s) @ nc \<and>
         distinct nt \<and>
         (\<forall>f\<in>set nt. int (next_fd s) \<le> f \<and> f < int (next_fd s')) \<and>
         (\<forall>f\<in>set no. int (next_fd s) \<le> f \<and> f < int (next_fd s')) \<and>
         (\<forall>f\<in>set nc. int (next_fd s) \<le> f \<and> f < int (next_fd s')) \<and>
         set nc \<inter> set nt = {}))"

text \<open>What the opening loop of one function returns, for the maps and the tracer it is
  started with.\<close>

definition probes_post ::
  "env \<Rightarrow> instrumented_function \<Rightarrow> cpu list \<Rightarrow> (cpu \<times> fd) list \<Rightarrow> (cpu \<times> fd) list \<Rightarrow> tracer
     \<Rightarrow> bool \<times> (cpu \<times> fd) list \<times> (cpu \<times> fd) list \<times> tracer \<Rightarrow> bool" where
  "probes_post e fn cpus up uret s res =
     (case res of (err, up', uret', s') \<Rightarrow>
        s' = s\<lparr>next_fd := next_fd s', trace := trace s'\<rparr> \<and>
        next_fd s \<le> next_fd s' \<and>
        err = (\<exists>c\<in>set cpus.
                 \<not> open_succeeds e (uprobes_stack_event (BinaryPath fn) (FileOffset fn) c) \<or>
                 \<not> open_succeeds e (uretprobes_event (BinaryPath fn) (FileOffset fn) c)) \<and>
        closed_fds (trace s') = closed_fds (trace s) \<and>
        (\<exists>nu nr no np.
           up' = up @ nu \<and> uret' = uret @ nr \<and>
           (\<not> err \<longrightarrow> map fst nu = cpus \<and> map fst nr = cpus) \<and>
           distinct (map snd nu @ map snd nr) \<and>
           (\<forall>f\<in>set (map snd nu @ map snd nr). int (next_fd s) \<le> f \<and> f < int (next_fd s')) \<and>
           opened_fds (trace s') = opened_fds (trace s) @ no \<and>
           mset no = mset (map snd nu @ map snd nr) \<and>
           probe_opens (trace s') = probe_opens (trace s) @ np \<and>
           set np =
             (\<lambda>(c, f). (uprobes_stack_event (BinaryPath fn) (FileOffset fn) c, f)) ` set nu \<union>
             (\<lambda>(c, f). (uretprobes_event (BinaryPath fn) (FileOffset fn) c, f)) ` set nr))"

text \<open>The two maps the opening loop builds for a function, and the tracer after the loop.\<close>

definition function_uprobes :: "env \<Rightarrow> instrumented_function \<Rightarrow> cpu list \<Rightarrow> tracer \<Rightarrow> (cpu \<times> fd) list" where
  "function_uprobes e fn cpus s = fst (snd (open_probes e fn cpus [] [] s))"

definition function_uretprobes :: "env \<Rightarrow> instrumented_function \<Rightarrow> cpu list \<Rightarrow> tracer \<Rightarrow> (cpu \<times> fd) list" where
  "function_uretprobes e fn cpus s = fst (snd (snd (open_probes e fn cpus [] [] s)))"

definition probes_tracer :: "env \<Rightarrow> instrumented_function \<Rightarrow> cpu list \<Rightarrow> tracer \<Rightarrow> tracer" where
  "probes_tracer e fn cpus s = snd (snd (snd (open_probes e fn cpus [] [] s)))"

text \<open>Every committed entry and return probe of the same function and CPU: the return
  probe stands before the entry probe in \<open>tracing_fds\<close>.\<close>

definition pair_order :: "tracer \<Rightarrow> bool" where
  "pair_order s =
     (\<forall>p off c fe fr.
        (uprobes_stack_event p off c, fe) \<in> set (probe_opens (trace s)) \<and>
        (uretprobes_event p off c, fr) \<in> set (probe_opens (trace s)) \<and>
        fe \<in> set (tracing_fds s) \<and> fr \<in> set (tracing_fds s)
        \<longrightarrow> before fr fe (tracing_fds s))"

text \<open>An open of a probe of the function (at its binary path and file offset).\<close>

definition probes_of :: "instrumented_function \<Rightarrow> perf_source \<times> fd \<Rightarrow> bool" where
  "probes_of fn x =
     (\<exists>c f. x = (uprobes_stack_event (BinaryPath fn) (FileOffset fn) c, f) \<or>
            x = (uretprobes_event (BinaryPath fn) (FileOffset fn) c, f))"

text \<open>The descriptors in the local vector of OpenGpuTracepoints that were not there before
  were handed out in between, and no probe was opened.\<close>

definition gpu_fresh :: "fd list \<Rightarrow> tracer \<Rightarrow> fd list \<Rightarrow> tracer \<Rightarrow> bool" where
  "gpu_fresh fds s fds' s' =
     (next_fd s \<le> next_fd s' \<and> probe_opens (trace s') = probe_opens (trace s) \<and>
      (\<forall>f\<in>set fds'. f \<in> set fds \<or> (int (next_fd s) \<le> f \<and> f < int (next_fd s'))))"

text \<open>A step of the opening phase that opens no probe and keeps the pid and the list of
  instrumented functions.\<close>

definition phase :: "tracer \<Rightarrow> tracer \<Rightarrow> bool" where
  "phase s s' =
     (extends s s' \<and> probe_opens (trace s') = probe_opens (trace s) \<and> pid s' = pid s \<and>
      instrumented_functions s' = instrumented_functions s)"

text \<open>What identifies an instrumented function to the kernel.\<close>

definition fn_key :: "instrumented_function \<Rightarrow> string \<times> nat" where
  "fn_key fn = (BinaryPath fn, FileOffset fn)"

text \<open>The total of lost records is the sum of the lost records per ring buffer.\<close>

definition lost_consistent :: "Stats \<Rightarrow> bool" where
  "lost_consistent st = (lost_count st = sum_list (map snd (lost_count_per_buffer st)))"

text \<open>The states the tracer passes through from the start of recording: every read of
  \<open>exit_requested\<close>, every print of the statistics and every record processed is a
  step.\<close>

inductive polling :: "env \<Rightarrow> tracer \<Rightarrow> tracer \<Rightarrow> bool" for e :: env and s0 :: tracer where
  polling_start: "polling e s0 (start_recording e s0)"
| polling_exit: "polling e s0 s \<Longrightarrow> polling e s0 (snd (read_exit_requested s))"
| polling_stats: "polling e s0 s \<Longrightarrow> polling e s0 (PrintStatsIfTimerElapsed e s)"
| polling_record: "polling e s0 s \<Longrightarrow> process_record e r i s = Inr s' \<Longrightarrow> polling e s0 s'"

section \<open>Concrete runs\<close>

text \<open>A machine with two cores on which every open and every mapping succeeds and
  no record arrives, and a tracer for process 100 with every source switched off.
  The scenarios below vary the two.\<close>

definition quiet_env :: env where
  "quiet_env =
     \<lparr>open_succeeds = (\<lambda>src. True), mmap_succeeds = (\<lambda>f. True),
      perf_event_get_id = (\<lambda>f. word_of_int f + 1000),
      GetTracepointId = (\<lambda>category name. 77),
      GetNumCores = 2, GetCpusetCpus = (\<lambda>p. [0, 1]), ListThreads = (\<lambda>p. []),
      iteration_rank = (\<lambda>(c, f). nat c), produced = (\<lambda>f. []),
      MonotonicTimestampNs = (\<lambda>n. 0), size_of_uretprobe = 40\<rparr>"

definition idle_tracer :: tracer where
  "idle_tracer =
     \<lparr>listener_set = True, pid = 100, sampling_period_ns = 1000000,
      trace_context_switches = False, trace_callstacks = False,
      trace_instrumented_functions = False, trace_gpu_driver_events = False,
      instrumented_functions = [], tracing_fds = [], ring_buffers = [], uprobes_fds = {},
      uprobes_ids_to_function = Map.empty, gpu_tracing_fds = {}, deferred_events = [],
      stop_deferred_thread = False,
      stats = \<lparr>event_count_begin_ns = 0, sched_switch_count = 0, sample_count = 0,
               uprobes_count = 0, gpu_events_count = 0, lost_count = 0,
               lost_count_per_buffer = []\<rparr>,
      gpu_event_processor = None, next_fd = 3, trace = [], listener_calls = [],
      exit_after = 12, clock_reads = 0\<rparr>"

definition plain_record :: "nat \<Rightarrow> perf_record" where
  "plain_record ty =
     \<lparr>header_type = ty, header_size = 48, ReadSampleRecordPid = 0,
      ReadUretprobesRecordPid = 0, ReadMmapRecordPid = 0, GetPid = 0, GetTid = 0,
      GetCpu = 0, GetTimestamp = 0, GetStreamId = 0, IsSwitchOut = False, GetNumLost = 0\<rparr>"

text \<open>The first scenario of the spec: context switches only, two CPUs, one switch-out
  record of thread 100 on CPU 0 and one of the idle thread on CPU 1.\<close>

definition switch_out_record :: "int \<Rightarrow> 32 word \<Rightarrow> 64 word \<Rightarrow> perf_record" where
  "switch_out_record t c ts =
     (plain_record PERF_RECORD_SWITCH_CPU_WIDE)
       \<lparr>GetPid := t, GetTid := t, GetCpu := c, GetTimestamp := ts, IsSwitchOut := True\<rparr>"

definition switch_env :: env where
  "switch_env =
     quiet_env\<lparr>produced := (\<lambda>f. if f = 3 then [switch_out_record 100 0 10]
                               else if f = 4 then [switch_out_record 0 1 20] else [])\<rparr>"

definition switch_tracer :: tracer where
  "switch_tracer = idle_tracer\<lparr>trace_context_switches := True\<rparr>"

text \<open>One core, context switches requested: the open returns descriptor 3 and the
  mapping of descriptor 3 fails.\<close>

definition unmappable_env :: env where
  "unmappable_env =
     quiet_env\<lparr>GetNumCores := 1, GetCpusetCpus := (\<lambda>p. [0]), mmap_succeeds := (\<lambda>f. f \<noteq> 3)\<rparr>"

text \<open>The fourth scenario of the spec: amdgpu_sched_run_job cannot be opened on
  CPU 1.\<close>

definition partial_gpu_env :: env where
  "partial_gpu_env =
     quiet_env\<lparr>open_succeeds :=
       (\<lambda>src. src \<noteq> tracepoint_event ''amdgpu'' ''amdgpu_sched_run_job'' 1)\<rparr>"

text \<open>One core, GPU tracing requested: the id of amdgpu_cs_ioctl cannot be resolved
  when the processor is initialised, the three tracepoints open (descriptors 4, 5
  and 6, after the mmap/task source on 3), and one sample arrives on descriptor 4.\<close>

definition unresolved_gpu_env :: env where
  "unresolved_gpu_env =
     quiet_env\<lparr>GetNumCores := 1, GetCpusetCpus := (\<lambda>p. [0]),
               GetTracepointId := (\<lambda>category name. -1),
               produced := (\<lambda>f. if f = 4 then [plain_record PERF_RECORD_SAMPLE] else [])\<rparr>"

definition gpu_tracer :: tracer where
  "gpu_tracer = idle_tracer\<lparr>trace_gpu_driver_events := True\<rparr>"

text \<open>One core, GPU tracing requested and everything succeeds: the mmap/task source
  is on descriptor 3 and the GPU tracepoints are on 4, 5 and 6.\<close>

definition one_core_env :: env where
  "one_core_env = quiet_env\<lparr>GetNumCores := 1, GetCpusetCpus := (\<lambda>p. [0])\<rparr>"

text \<open>One core and one instrumented function: the entry probe is on descriptor 3 and
  is the root of the ring buffer of CPU 0, the return probe is on descriptor 4.\<close>

definition traced_function :: instrumented_function where
  "traced_function = \<lparr>BinaryPath = ''/bin/app'', FileOffset = 4096, VirtualAddress = 4198400\<rparr>"

definition probe_tracer :: tracer where
  "probe_tracer = idle_tracer\<lparr>trace_instrumented_functions := True,
                               instrumented_functions := [traced_function]\<rparr>"

definition return_sample :: perf_record where
  "return_sample =
     (plain_record PERF_RECORD_SAMPLE)
       \<lparr>header_size := 40, ReadUretprobesRecordPid := 100, GetStreamId := 1004\<rparr>"

definition entry_sample :: perf_record where
  "entry_sample =
     (plain_record PERF_RECORD_SAMPLE)
       \<lparr>header_size := 4096, ReadSampleRecordPid := 100, GetStreamId := 1003\<rparr>"

text \<open>The fifth scenario of the spec: one core with sampling, and a PERF_RECORD_LOST of 17
  records on the sampling ring buffer (descriptor 4, ring buffer 1).\<close>

definition lost_env :: env where
  "lost_env =
     quiet_env\<lparr>GetNumCores := 1, GetCpusetCpus := (\<lambda>p. [0]),
               produced := (\<lambda>f. if f = 4 then [(plain_record PERF_RECORD_LOST)\<lparr>GetNumLost := 17\<rparr>]
                                else [])\<rparr>"

definition sampling_tracer :: tracer where
  "sampling_tracer = idle_tracer\<lparr>trace_callstacks := True\<rparr>"

text \<open>Two cores and one instrumented function whose return probe cannot be opened on
  CPU 1.\<close>

definition failing_probe_env :: env where
  "failing_probe_env =
     quiet_env\<lparr>open_succeeds := (\<lambda>src. src \<noteq> uretprobes_event ''/bin/app'' 4096 1)\<rparr>"

section \<open>Properties\<close>

subsection \<open>Evaluation and the log\<close>

lemma poll_ring_buffer_numeral:
  "poll_ring_buffer e (numeral k) i (saw, s) =
     (case read_exit_requested s of
        (exit_now, s1) \<Rightarrow>
          if exit_now then Inr (saw, s1)
          else if \<not> HasNewData e (ring_buffers s1 ! i) then Inr (saw, s1)
          else (case process_record e (ReadHeader e (ring_buffers s1 ! i)) i s1 of
                  Inl err \<Rightarrow> Inl err
                | Inr s2 \<Rightarrow> poll_ring_buffer e (pred_numeral k) i (True, s2)))"
  by (simp add: numeral_eq_Suc)

lemmas run_defs = Run_def open_sources_def Reset_def all_cpus_def cpuset_cpus_def
  InitGpuTracepointEventProcessor_def perf_event_open_def new_PerfEventRingBuffer_def
  start_recording_def Stats_Reset_def read_clock_def shutdown_def ProcessDeferredEvents_def
  drop_ring_buffers_def unmap_actions_def CloseFileDescriptors_def
  tracer_iteration_def PrintStatsIfTimerElapsed_def read_exit_requested_def
  ROUND_ROBIN_POLLING_BATCH_SIZE_def HasNewData_def ReadHeader_def process_record_def
  ProcessContextSwitchCpuWideEvent_def ProcessSampleEvent_def ProcessLostEvent_def
  ConsumeRecord_def SkipRecord_def call_listener_def DeferEvent_def
  PERF_RECORD_SWITCH_def PERF_RECORD_SWITCH_CPU_WIDE_def PERF_RECORD_MMAP_def
  PERF_RECORD_LOST_def PERF_RECORD_EXIT_def PERF_RECORD_FORK_def PERF_RECORD_SAMPLE_def
  OpenGpuTracepoints_def OpenRingBufferForGpuTracepoint_def
  poll_ring_buffer_numeral main_loop.simps Let_def upt_rec

lemmas scenario_defs = quiet_env_def idle_tracer_def plain_record_def switch_out_record_def
  switch_env_def switch_tracer_def unmappable_env_def partial_gpu_env_def
  unresolved_gpu_env_def gpu_tracer_def one_core_env_def traced_function_def probe_tracer_def
  return_sample_def entry_sample_def opened_tracer_def lost_env_def sampling_tracer_def

lemma opened_fds_append [simp]: "opened_fds (xs @ ys) = opened_fds xs @ opened_fds ys"
  by (induction xs rule: opened_fds.induct) simp_all

lemma closed_fds_append [simp]: "closed_fds (xs @ ys) = closed_fds xs @ closed_fds ys"
  by (induction xs rule: closed_fds.induct) simp_all

lemma enabled_fds_append [simp]: "enabled_fds (xs @ ys) = enabled_fds xs @ enabled_fds ys"
  by (induction xs rule: enabled_fds.induct) simp_all

lemma closed_fds_map_Close [simp]: "closed_fds (map Close fds) = fds"
  by (induction fds) simp_all

lemma opened_fds_map_Close [simp]: "opened_fds (map Close fds) = []"
  by (induction fds) simp_all

lemma opened_fds_unmap_actions [simp]: "opened_fds (unmap_actions rbs) = []"
  by (induction rbs) (simp_all add: unmap_actions_def)

lemma closed_fds_unmap_actions [simp]: "closed_fds (unmap_actions rbs) = []"
  by (induction rbs) (simp_all add: unmap_actions_def)

lemmas probe_defs = instrument_function_def emplace_def iterate_def assign_def
  perf_event_redirect_def

subsection \<open>A descriptor whose ring buffer cannot be mapped\<close>

text \<open>
  C1. Claim: every descriptor opened during the opening phase is afterwards either in
  \<open>tracing_fds\<close> or already closed, in particular when its ring buffer fails to map.
  The loops for context switches, mmap/task notifications and sampling open the
  descriptor, construct the ring buffer and commit the descriptor only when the ring
  buffer is open; when the open succeeded and the mapping failed, the descriptor is
  neither committed nor closed. With one core, context switches requested and the
  mapping of descriptor 3 failing: after the opening phase descriptor 3 has been
  opened, is not tracked and has not been closed, and at the end of the run only
  descriptor 4 (the mmap/task source) has been closed. OpenGpuTracepoints, in
  contrast, records each descriptor before it maps it and closes it on failure.
\<close>

theorem unmapped_descriptor_is_leaked:
  "(case open_sources unmappable_env switch_tracer of
      Inl err \<Rightarrow> False
    | Inr (perf_event_open_errors, uprobes_event_open_errors, gpu_event_open_errors, s) \<Rightarrow>
        perf_event_open_errors \<and> opened_fds (trace s) = [3, 4] \<and> tracing_fds s = [4] \<and>
        closed_fds (trace s) = [])
   \<and> (case Run unmappable_env switch_tracer of
      Inl err \<Rightarrow> False
    | Inr s \<Rightarrow> opened_fds (trace s) = [3, 4] \<and> closed_fds (trace s) = [4])"
  by (simp add: run_defs scenario_defs)

subsection \<open>Opening the GPU tracepoints is all or nothing\<close>

lemma OpenRingBufferForGpuTracepoint_eq:
  "OpenRingBufferForGpuTracepoint e cat nm c fds rbs s =
     (if \<not> open_succeeds e (tracepoint_event cat nm c) then (False, fds, rbs, s)
      else if \<not> mmap_succeeds e (int (next_fd s))
        then (False, fds @ [int (next_fd s)], rbs,
              s\<lparr>next_fd := Suc (next_fd s),
                 trace := trace s @ [Open (tracepoint_event cat nm c) (int (next_fd s))]\<rparr>)
        else (True, fds @ [int (next_fd s)],
              rbs @ [\<lparr>GetFileDescriptor = int (next_fd s), IsOpen = True, tail = 0\<rparr>],
              s\<lparr>next_fd := Suc (next_fd s),
                 trace := trace s @ [Open (tracepoint_event cat nm c) (int (next_fd s)),
                                     Mmap (int (next_fd s))]\<rparr>))"
  by (simp add: OpenRingBufferForGpuTracepoint_def perf_event_open_def
        new_PerfEventRingBuffer_def)

lemma all_succeed_append:
  "all_succeed e n (xs @ ys) = (all_succeed e n xs \<and> all_succeed e (n + length xs) ys)"
  by (induction xs arbitrary: n) auto

lemma gpu_tracepoints_Cons: "gpu_tracepoints (c # cpus) = gpu_tracepoints [c] @ gpu_tracepoints cpus"
  by (simp add: gpu_tracepoints_def)

lemma length_gpu_tracepoints: "length (gpu_tracepoints cpus) = 3 * length cpus"
  by (induction cpus) (simp_all add: gpu_tracepoints_def)

lemma tracer_frame_trans:
  "s3 = s\<lparr>next_fd := n3, trace := t3\<rparr> \<Longrightarrow> s' = s3\<lparr>next_fd := next_fd s', trace := trace s'\<rparr>
     \<Longrightarrow> s' = s\<lparr>next_fd := next_fd s', trace := trace s'\<rparr>"
  by simp

lemma gpu_post_step:
  assumes post: "gpu_post e cpus fds3 rbs3 s3 res"
    and s3: "s3 = s\<lparr>next_fd := next_fd s + 3, trace := trace s @ ev\<rparr>"
    and ev: "opened_fds ev = new3" "closed_fds ev = []"
    and fds3: "fds3 = fds @ new3" "new3 = map int [next_fd s..<next_fd s + 3]"
    and rbs3: "rbs3 = rbs @ nrb3" "map GetFileDescriptor nrb3 = new3" "list_all IsOpen nrb3"
    and ok3: "all_succeed e (next_fd s) (gpu_tracepoints [c])"
  shows "gpu_post e (c # cpus) fds rbs s res"
proof -
  obtain ok fds' rbs' s' where res: "res = (ok, fds', rbs', s')" by (cases res)
  from post res obtain new where
    p1: "ok = all_succeed e (next_fd s3) (gpu_tracepoints cpus)" and
    p2: "s' = s3\<lparr>next_fd := next_fd s', trace := trace s'\<rparr>" and
    p3: "fds' = fds3 @ new" and
    p4: "opened_fds (trace s') = opened_fds (trace s3) @ new" and
    p5: "closed_fds (trace s') = closed_fds (trace s3) @ (if ok then [] else fds')" and
    p6: "ok \<longrightarrow> new = map int [next_fd s3..<next_fd s3 + 3 * length cpus] \<and>
           (\<exists>nrb. rbs' = rbs3 @ nrb \<and> map GetFileDescriptor nrb = new \<and> list_all IsOpen nrb)"
    unfolding gpu_post_def by auto
  have n3: "next_fd s3 = next_fd s + 3" using s3 by simp
  have a1: "ok = all_succeed e (next_fd s) (gpu_tracepoints (c # cpus))"
    using p1 ok3 n3
    by (simp add: gpu_tracepoints_Cons [of c cpus] all_succeed_append length_gpu_tracepoints)
  have a2: "s' = s\<lparr>next_fd := next_fd s', trace := trace s'\<rparr>"
    using tracer_frame_trans [OF s3 p2] .
  have a3: "fds' = fds @ (new3 @ new)" using p3 fds3 by simp
  have a4: "opened_fds (trace s') = opened_fds (trace s) @ (new3 @ new)"
    using p4 s3 ev by simp
  have a5: "closed_fds (trace s') = closed_fds (trace s) @ (if ok then [] else fds')"
    using p5 s3 ev by simp
  have a6: "ok \<longrightarrow> new3 @ new = map int [next_fd s..<next_fd s + 3 * length (c # cpus)] \<and>
           (\<exists>nrb. rbs' = rbs @ nrb \<and> map GetFileDescriptor nrb = new3 @ new \<and> list_all IsOpen nrb)"
  proof
    assume ok
    with p6 obtain nrb where
      q: "new = map int [next_fd s3..<next_fd s3 + 3 * length cpus]"
         "rbs' = rbs3 @ nrb" "map GetFileDescriptor nrb = new" "list_all IsOpen nrb"
      by auto
    have "[next_fd s..<next_fd s + 3 * length (c # cpus)] =
          [next_fd s..<next_fd s + 3] @ [next_fd s + 3..<next_fd s + 3 + 3 * length cpus]"
      using upt_add_eq_append [of "next_fd s" "next_fd s + 3" "3 * length cpus"]
      by (simp add: add.assoc)
    then have "new3 @ new = map int [next_fd s..<next_fd s + 3 * length (c # cpus)]"
      using q(1) fds3(2) n3 by simp
    moreover have "rbs' = rbs @ (nrb3 @ nrb)" using q(2) rbs3(1) by simp
    moreover have "map GetFileDescriptor (nrb3 @ nrb) = new3 @ new" using q(3) rbs3(2) by simp
    moreover have "list_all IsOpen (nrb3 @ nrb)" using q(4) rbs3(3) by simp
    ultimately show "new3 @ new = map int [next_fd s..<next_fd s + 3 * length (c # cpus)] \<and>
           (\<exists>nrb. rbs' = rbs @ nrb \<and> map GetFileDescriptor nrb = new3 @ new \<and> list_all IsOpen nrb)"
      by blast
  qed
  show ?thesis
    unfolding gpu_post_def res using a1 a2 a3 a4 a5 a6 by blast
qed

lemma gpu_post_fail:
  assumes "\<not> all_succeed e (next_fd s) (gpu_tracepoints [c])"
    and "s1 = s\<lparr>next_fd := n1, trace := trace s @ ev\<rparr>"
    and "opened_fds ev = new" "closed_fds ev = []"
  shows "gpu_post e (c # cpus) fds rbs s (False, fds @ new, rbs1, CloseFileDescriptors (fds @ new) s1)"
  unfolding gpu_post_def using assms
  by (simp add: gpu_tracepoints_Cons [of c cpus] all_succeed_append CloseFileDescriptors_def)

lemma open_gpu_cpus_post:
  "gpu_post e cpus fds rbs s (open_gpu_cpus e cpus fds rbs s)"
proof (induction cpus arbitrary: fds rbs s)
  case Nil
  show ?case by (simp add: gpu_post_def gpu_tracepoints_def)
next
  case (Cons c cpus)
  let ?n = "next_fd s"
  let ?src1 = "tracepoint_event ''amdgpu'' ''amdgpu_cs_ioctl'' c"
  let ?src2 = "tracepoint_event ''amdgpu'' ''amdgpu_sched_run_job'' c"
  let ?src3 = "tracepoint_event ''dma_fence'' ''dma_fence_signaled'' c"
  have as: "all_succeed e ?n (gpu_tracepoints [c]) =
       (open_succeeds e ?src1 \<and> mmap_succeeds e (int ?n) \<and>
        open_succeeds e ?src2 \<and> mmap_succeeds e (int (Suc ?n)) \<and>
        open_succeeds e ?src3 \<and> mmap_succeeds e (int (Suc (Suc ?n))))"
    by (simp add: gpu_tracepoints_def)
  consider (f1) "\<not> open_succeeds e ?src1"
    | (f2) "open_succeeds e ?src1" "\<not> mmap_succeeds e (int ?n)"
    | (f3) "open_succeeds e ?src1" "mmap_succeeds e (int ?n)" "\<not> open_succeeds e ?src2"
    | (f4) "open_succeeds e ?src1" "mmap_succeeds e (int ?n)" "open_succeeds e ?src2"
           "\<not> mmap_succeeds e (int (Suc ?n))"
    | (f5) "open_succeeds e ?src1" "mmap_succeeds e (int ?n)" "open_succeeds e ?src2"
           "mmap_succeeds e (int (Suc ?n))" "\<not> open_succeeds e ?src3"
    | (f6) "open_succeeds e ?src1" "mmap_succeeds e (int ?n)" "open_succeeds e ?src2"
           "mmap_succeeds e (int (Suc ?n))" "open_succeeds e ?src3"
           "\<not> mmap_succeeds e (int (Suc (Suc ?n)))"
    | (ok) "open_succeeds e ?src1" "mmap_succeeds e (int ?n)" "open_succeeds e ?src2"
           "mmap_succeeds e (int (Suc ?n))" "open_succeeds e ?src3"
           "mmap_succeeds e (int (Suc (Suc ?n)))"
    by blast
  then show ?case
  proof cases
    case f1
    then have "\<not> all_succeed e ?n (gpu_tracepoints [c])" using as by simp
    from gpu_post_fail [OF this, where ?s1.0 = s and ?n1.0 = ?n and ev = "[]" and new = "[]" and cpus = cpus and fds = fds and ?rbs1.0 = rbs] f1
    show ?thesis by (simp add: OpenRingBufferForGpuTracepoint_eq)
  next
    case f2
    then have "\<not> all_succeed e ?n (gpu_tracepoints [c])" using as by simp
    from gpu_post_fail [OF this, where ev = "[Open ?src1 (int ?n)]" and new = "[int ?n]" and cpus = cpus and fds = fds and ?rbs1.0 = rbs] f2
    show ?thesis by (simp add: OpenRingBufferForGpuTracepoint_eq)
  next
    case f3
    then have "\<not> all_succeed e ?n (gpu_tracepoints [c])" using as by simp
    from gpu_post_fail [OF this, where ev = "[Open ?src1 (int ?n), Mmap (int ?n)]" and new = "[int ?n]" and cpus = cpus and fds = fds] f3
    show ?thesis by (simp add: OpenRingBufferForGpuTracepoint_eq)
  next
    case f4
    then have "\<not> all_succeed e ?n (gpu_tracepoints [c])" using as by simp
    from gpu_post_fail [OF this, where ev = "[Open ?src1 (int ?n), Mmap (int ?n), Open ?src2 (int (Suc ?n))]"
        and new = "[int ?n, int (Suc ?n)]" and cpus = cpus and fds = fds] f4
    show ?thesis by (simp add: OpenRingBufferForGpuTracepoint_eq)
  next
    case f5
    then have "\<not> all_succeed e ?n (gpu_tracepoints [c])" using as by simp
    from gpu_post_fail [OF this, where ev = "[Open ?src1 (int ?n), Mmap (int ?n), Open ?src2 (int (Suc ?n)), Mmap (int (Suc ?n))]"
        and new = "[int ?n, int (Suc ?n)]" and cpus = cpus and fds = fds] f5
    show ?thesis by (simp add: OpenRingBufferForGpuTracepoint_eq)
  next
    case f6
    then have "\<not> all_succeed e ?n (gpu_tracepoints [c])" using as by simp
    from gpu_post_fail [OF this, where ev = "[Open ?src1 (int ?n), Mmap (int ?n), Open ?src2 (int (Suc ?n)), Mmap (int (Suc ?n)),
          Open ?src3 (int (Suc (Suc ?n)))]"
        and new = "[int ?n, int (Suc ?n), int (Suc (Suc ?n))]" and cpus = cpus and fds = fds] f6
    show ?thesis by (simp add: OpenRingBufferForGpuTracepoint_eq)
  next
    case ok
    then have all: "all_succeed e ?n (gpu_tracepoints [c])" using as by simp
    let ?ev = "[Open ?src1 (int ?n), Mmap (int ?n), Open ?src2 (int (Suc ?n)), Mmap (int (Suc ?n)),
          Open ?src3 (int (Suc (Suc ?n))), Mmap (int (Suc (Suc ?n)))]"
    let ?new3 = "[int ?n, int (Suc ?n), int (Suc (Suc ?n))]"
    let ?nrb3 = "[\<lparr>GetFileDescriptor = int ?n, IsOpen = True, tail = 0\<rparr>,
                     \<lparr>GetFileDescriptor = int (Suc ?n), IsOpen = True, tail = 0\<rparr>,
                     \<lparr>GetFileDescriptor = int (Suc (Suc ?n)), IsOpen = True, tail = 0\<rparr>]"
    let ?s3 = "s\<lparr>next_fd := ?n + 3, trace := trace s @ ?ev\<rparr>"
    have up: "?new3 = map int [?n..<?n + 3]" by (simp add: upt_conv_Cons)
    have "gpu_post e (c # cpus) fds rbs s (open_gpu_cpus e cpus (fds @ ?new3) (rbs @ ?nrb3) ?s3)"
      by (rule gpu_post_step [OF Cons.IH refl _ _ refl up refl _ _ all]) simp_all
    moreover have "open_gpu_cpus e (c # cpus) fds rbs s =
        open_gpu_cpus e cpus (fds @ ?new3) (rbs @ ?nrb3) ?s3"
      using ok by (simp add: OpenRingBufferForGpuTracepoint_eq numeral_3_eq_3)
    ultimately show ?thesis by simp
  qed
qed


lemma all_succeed_opens:
  "all_succeed e n srcs \<Longrightarrow> list_all (open_succeeds e) srcs"
  by (induction srcs arbitrary: n) auto

text \<open>
  C2. OpenGpuTracepoints returns true exactly when each of the three tracepoints of
  each CPU opens and maps. When it returns true, the descriptors it opened (three per
  CPU, in order) are appended to \<open>tracing_fds\<close>, added to \<open>gpu_tracing_fds\<close>, and
  their open ring buffers are appended to \<open>ring_buffers\<close>; nothing is closed. When it
  returns false, the descriptors it opened are exactly the descriptors it closed, and
  the tracer is unchanged but for the kernel's descriptor counter and the log: nothing
  is committed, and \<open>gpu_tracing_fds\<close> stays as it was, so that no sample is taken for
  a GPU sample.
\<close>

theorem OpenGpuTracepoints_all_or_nothing:
  "case OpenGpuTracepoints e cpus s of
     (ok, s') \<Rightarrow>
       ok = all_succeed e (next_fd s) (gpu_tracepoints cpus) \<and>
       (ok \<longrightarrow> list_all (open_succeeds e) (gpu_tracepoints cpus)) \<and>
       (if ok
        then opened_fds (trace s') =
               opened_fds (trace s) @ map int [next_fd s..<next_fd s + 3 * length cpus] \<and>
             closed_fds (trace s') = closed_fds (trace s) \<and>
             tracing_fds s' = tracing_fds s @ map int [next_fd s..<next_fd s + 3 * length cpus] \<and>
             gpu_tracing_fds s' =
               gpu_tracing_fds s \<union> set (map int [next_fd s..<next_fd s + 3 * length cpus]) \<and>
             (\<exists>nrb. ring_buffers s' = ring_buffers s @ nrb \<and>
                    map GetFileDescriptor nrb = map int [next_fd s..<next_fd s + 3 * length cpus] \<and>
                    list_all IsOpen nrb)
        else s' = s\<lparr>next_fd := next_fd s', trace := trace s'\<rparr> \<and>
             (\<exists>new. opened_fds (trace s') = opened_fds (trace s) @ new \<and>
                    closed_fds (trace s') = closed_fds (trace s) @ new))"
proof -
  obtain ok fds rbs s1 where r: "open_gpu_cpus e cpus [] [] s = (ok, fds, rbs, s1)"
    by (cases "open_gpu_cpus e cpus [] [] s")
  from open_gpu_cpus_post [of e cpus "[]" "[]" s] r
  have p1: "ok = all_succeed e (next_fd s) (gpu_tracepoints cpus)"
    and p2: "s1 = s\<lparr>next_fd := next_fd s1, trace := trace s1\<rparr>"
    and p3: "opened_fds (trace s1) = opened_fds (trace s) @ fds"
    and p4: "closed_fds (trace s1) = closed_fds (trace s) @ (if ok then [] else fds)"
    and p5: "ok \<longrightarrow> fds = map int [next_fd s..<next_fd s + 3 * length cpus] \<and>
                 map GetFileDescriptor rbs = fds \<and> list_all IsOpen rbs"
    by (auto simp: gpu_post_def)
  have fr: "tracing_fds s1 = tracing_fds s" "gpu_tracing_fds s1 = gpu_tracing_fds s"
    "ring_buffers s1 = ring_buffers s"
    by (subst p2, simp)+
  show ?thesis
  proof (cases ok)
    case True
    with p1 have "list_all (open_succeeds e) (gpu_tracepoints cpus)"
      using all_succeed_opens by blast
    with True p1 p3 p4 p5 fr r show ?thesis
      by (simp add: OpenGpuTracepoints_def)
  next
    case False
    have "drop_ring_buffers rbs s1 =
          s\<lparr>next_fd := next_fd (drop_ring_buffers rbs s1), trace := trace (drop_ring_buffers rbs s1)\<rparr>"
      by (subst p2) (simp add: drop_ring_buffers_def)
    with False p1 p3 p4 r show ?thesis
      by (simp add: OpenGpuTracepoints_def drop_ring_buffers_def)
  qed
qed

text \<open>The fourth scenario of the spec, and a run where everything opens.\<close>

theorem OpenGpuTracepoints_all_or_nothing_witness:
  "fst (OpenGpuTracepoints partial_gpu_env [0, 1] idle_tracer) = False \<and>
   opened_fds (trace (snd (OpenGpuTracepoints partial_gpu_env [0, 1] idle_tracer))) = [3, 4, 5, 6] \<and>
   closed_fds (trace (snd (OpenGpuTracepoints partial_gpu_env [0, 1] idle_tracer))) = [3, 4, 5, 6] \<and>
   tracing_fds (snd (OpenGpuTracepoints partial_gpu_env [0, 1] idle_tracer)) = [] \<and>
   fst (OpenGpuTracepoints quiet_env [0, 1] idle_tracer) = True \<and>
   tracing_fds (snd (OpenGpuTracepoints quiet_env [0, 1] idle_tracer)) = [3, 4, 5, 6, 7, 8]"
  using OpenGpuTracepoints_all_or_nothing
      [where e = partial_gpu_env and cpus = "[0, 1]" and s = idle_tracer]
    OpenGpuTracepoints_all_or_nothing [where e = quiet_env and cpus = "[0, 1]" and s = idle_tracer]
  by (simp add: run_defs scenario_defs)

subsection \<open>Samples\<close>

text \<open>
  The pid filter of ProcessSampleEvent. A sample whose ring buffer is not on a GPU
  tracepoint descriptor and whose pid (read at the return-probe offset when the sample
  is a return probe) is not the traced pid is skipped: the only change to the tracer
  is that the ring buffer's read position advances, so no event is deferred, the
  listener is not called and no counter moves. A sample whose ring buffer is on a GPU
  tracepoint descriptor, in a tracer that has a GPU event processor, is consumed and
  pushed to the processor, and \<open>gpu_events_count\<close> is incremented, whatever its pid.
\<close>

lemma ProcessSampleEvent_pid_filter:
  "(GetFileDescriptor (ring_buffers s ! i) \<notin> gpu_tracing_fds s \<and>
    (if GetFileDescriptor (ring_buffers s ! i) \<in> uprobes_fds s \<and> header_size r = size_of_uretprobe e
     then ReadUretprobesRecordPid r else ReadSampleRecordPid r) \<noteq> pid s
    \<longrightarrow> ProcessSampleEvent e r i s =
          Inr (s\<lparr>ring_buffers := (ring_buffers s)
                 [i := (ring_buffers s ! i)\<lparr>tail := Suc (tail (ring_buffers s ! i))\<rparr>]\<rparr>)) \<and>
   (GetFileDescriptor (ring_buffers s ! i) \<in> gpu_tracing_fds s \<and>
    GetFileDescriptor (ring_buffers s ! i) \<notin> uprobes_fds s \<and>
    gpu_event_processor s = Some proc
    \<longrightarrow> ProcessSampleEvent e r i s =
          Inr (s\<lparr>ring_buffers := (ring_buffers s)
                 [i := (ring_buffers s ! i)\<lparr>tail := Suc (tail (ring_buffers s ! i))\<rparr>],
                 gpu_event_processor := Some (proc\<lparr>pushed := pushed proc @ [r]\<rparr>),
                 stats := (stats s)\<lparr>gpu_events_count := gpu_events_count (stats s) + 1\<rparr>\<rparr>))"
  by (simp add: ProcessSampleEvent_def Let_def SkipRecord_def ConsumeRecord_def)

text \<open>After the opening phase on one core with GPU tracing: ring buffer 0 is the
  mmap/task source, ring buffer 1 the first GPU tracepoint; the sample has pid 0.\<close>

lemma ProcessSampleEvent_pid_filter_one_core:
  "ProcessSampleEvent one_core_env (plain_record PERF_RECORD_SAMPLE) 0
     (opened_tracer one_core_env gpu_tracer) =
     Inr (SkipRecord 0 (opened_tracer one_core_env gpu_tracer)) \<and>
   map_option pushed (gpu_event_processor (projr
     (ProcessSampleEvent one_core_env (plain_record PERF_RECORD_SAMPLE) 1
        (opened_tracer one_core_env gpu_tracer)))) = Some [plain_record PERF_RECORD_SAMPLE]"
  using ProcessSampleEvent_pid_filter
      [where s = "opened_tracer one_core_env gpu_tracer" and i = 0
         and r = "plain_record PERF_RECORD_SAMPLE" and e = one_core_env]
    ProcessSampleEvent_pid_filter
      [where s = "opened_tracer one_core_env gpu_tracer" and i = 1
         and r = "plain_record PERF_RECORD_SAMPLE" and e = one_core_env
         and proc = "\<lparr>amdgpu_cs_ioctl_id = 77, amdgpu_sched_run_job_id = 77,
                       dma_fence_signaled_id = 77, pushed = []\<rparr>"]
  by (simp add: run_defs scenario_defs)

text \<open>
  C5. Claim: a sample on a descriptor that is not a GPU tracepoint's and whose pid is
  not the traced pid is skipped, and a sample on a GPU tracepoint descriptor is kept
  and handed to the GPU event processor whatever its pid. The second half fails in a
  tracer that has GPU tracepoint descriptors and no processor. \<open>Run\<close> only logs the
  failure of InitGpuTracepointEventProcessor and opens the GPU tracepoints whatever its
  result. When the id of a tracepoint cannot be resolved at initialisation and the
  three tracepoints open afterwards (one core, traced pid 100), ring buffer 1 is on
  the GPU tracepoint descriptor 4 and there is no processor: a sample there is not
  handed over, ProcessSampleEvent dereferences the null pointer, for a sample of pid 0
  as for a sample of the traced pid. The tracer is the one \<open>Run\<close> is polling: the
  opening phase returns it, and the start of recording changes neither the GPU
  descriptors nor the processor.
\<close>

theorem gpu_sample_not_handed_over:
  "(case open_sources unresolved_gpu_env gpu_tracer of
      Inl err \<Rightarrow> False
    | Inr (perf_event_open_errors, uprobes_event_open_errors, gpu_event_open_errors, s) \<Rightarrow>
        pid s = 100 \<and>
        GetFileDescriptor (ring_buffers s ! 1) = 4 \<and>
        4 \<in> gpu_tracing_fds s \<and>
        gpu_event_processor s = None \<and>
        gpu_tracing_fds (start_recording unresolved_gpu_env s) = gpu_tracing_fds s \<and>
        gpu_event_processor (start_recording unresolved_gpu_env s) = None \<and>
        ProcessSampleEvent unresolved_gpu_env (plain_record PERF_RECORD_SAMPLE) 1 s =
          Inl NullDereference \<and>
        ProcessSampleEvent unresolved_gpu_env
          ((plain_record PERF_RECORD_SAMPLE)\<lparr>ReadSampleRecordPid := 100\<rparr>) 1 s =
          Inl NullDereference)"
  by (simp add: run_defs scenario_defs)

text \<open>
  C6. A sample on a probe root descriptor whose pid is the traced pid and whose stream
  id is in the stream-id map produces exactly one deferred event, tagged with the
  origin descriptor and carrying the function the map gives for the stream id: a
  UretprobesPerfEvent when \<open>header.size\<close> equals \<open>sizeof(perf_event_empty_sample)\<close>,
  and a UprobesWithStackPerfEvent for any other size. The record is consumed and
  \<open>uprobes_count\<close> is incremented.
\<close>

theorem ProcessSampleEvent_probe_classification:
  assumes "GetFileDescriptor (ring_buffers s ! i) \<in> uprobes_fds s"
    and "GetFileDescriptor (ring_buffers s ! i) \<notin> gpu_tracing_fds s"
    and "(if header_size r = size_of_uretprobe e
          then ReadUretprobesRecordPid r else ReadSampleRecordPid r) = pid s"
    and "uprobes_ids_to_function s (GetStreamId r) = Some fn"
  shows "ProcessSampleEvent e r i s =
          Inr (s\<lparr>ring_buffers := (ring_buffers s)
                 [i := (ring_buffers s ! i)\<lparr>tail := Suc (tail (ring_buffers s ! i))\<rparr>],
                 deferred_events := deferred_events s @
                   [if header_size r = size_of_uretprobe e
                    then UretprobesPerfEvent r fn (GetFileDescriptor (ring_buffers s ! i))
                    else UprobesWithStackPerfEvent r fn (GetFileDescriptor (ring_buffers s ! i))],
                 stats := (stats s)\<lparr>uprobes_count := uprobes_count (stats s) + 1\<rparr>\<rparr>)"
  using assms
  by (simp add: ProcessSampleEvent_def Let_def SkipRecord_def ConsumeRecord_def DeferEvent_def)

text \<open>After the opening phase with one instrumented function on one core.\<close>

theorem ProcessSampleEvent_probe_classification_witness:
  "deferred_events (projr (ProcessSampleEvent one_core_env return_sample 0
      (opened_tracer one_core_env probe_tracer))) =
     [UretprobesPerfEvent return_sample traced_function 3] \<and>
   deferred_events (projr (ProcessSampleEvent one_core_env entry_sample 0
      (opened_tracer one_core_env probe_tracer))) =
     [UprobesWithStackPerfEvent entry_sample traced_function 3]"
proof -
  have s: "GetFileDescriptor (ring_buffers (opened_tracer one_core_env probe_tracer) ! 0) = 3"
    "uprobes_fds (opened_tracer one_core_env probe_tracer) = {3}"
    "gpu_tracing_fds (opened_tracer one_core_env probe_tracer) = {}"
    "pid (opened_tracer one_core_env probe_tracer) = 100"
    "uprobes_ids_to_function (opened_tracer one_core_env probe_tracer) 1003 = Some traced_function"
    "uprobes_ids_to_function (opened_tracer one_core_env probe_tracer) 1004 = Some traced_function"
    "deferred_events (opened_tracer one_core_env probe_tracer) = []"
    by (simp_all add: run_defs scenario_defs probe_defs)
  have e: "size_of_uretprobe one_core_env = 40"
    by (simp add: scenario_defs)
  show ?thesis
    using ProcessSampleEvent_probe_classification
        [where s = "opened_tracer one_core_env probe_tracer" and i = 0 and r = return_sample
           and e = one_core_env and fn = traced_function]
      ProcessSampleEvent_probe_classification
        [where s = "opened_tracer one_core_env probe_tracer" and i = 0 and r = entry_sample
           and e = one_core_env and fn = traced_function]
    by (simp add: s e return_sample_def entry_sample_def plain_record_def)
qed

subsection \<open>A GPU sample without a GPU event processor\<close>

text \<open>
  C10. Claim: whenever ProcessSampleEvent handles a sample of a GPU tracepoint
  descriptor, \<open>gpu_event_processor\<close> is not null. \<open>Run\<close> only logs the failure of
  InitGpuTracepointEventProcessor and opens the GPU tracepoints whatever its result.
  When the id of a tracepoint cannot be resolved at initialisation and the three
  tracepoints open afterwards, the opening phase ends with three GPU descriptors and
  no processor, and the first GPU sample dereferences the null pointer.
\<close>

theorem gpu_sample_without_processor:
  "(case open_sources unresolved_gpu_env gpu_tracer of
      Inl err \<Rightarrow> False
    | Inr (perf_event_open_errors, uprobes_event_open_errors, gpu_event_open_errors, s) \<Rightarrow>
        \<not> gpu_event_open_errors \<and> gpu_tracing_fds s = {4, 5, 6} \<and> gpu_event_processor s = None)
   \<and> Run unresolved_gpu_env gpu_tracer = Inl NullDereference"
  by (simp add: run_defs scenario_defs)

subsection \<open>Context switches\<close>

text \<open>
  C7. A PERF_RECORD_SWITCH_CPU_WIDE record is dispatched to
  ProcessContextSwitchCpuWideEvent, which appends to the calls of the listener exactly
  one OnContextSwitchOut or OnContextSwitchIn (by the record's switch-out flag) with
  the record's tid, cpu and timestamp when the tid is not 0, and nothing when it is 0.
  The cpu is passed as a 16-bit value and is the record's cpu whenever that is below
  65536. In the first scenario of the spec (switch-out records for tid 100 on CPU 0 at
  time 10 and for tid 0 on CPU 1 at time 20, traced pid 100) the listener receives
  exactly the call OnContextSwitchOut 100 0 10 during the whole run.
\<close>

theorem ProcessContextSwitchCpuWideEvent_delivery:
  "listener_calls (ProcessContextSwitchCpuWideEvent r i s) =
     listener_calls s @
       (if GetTid r = 0 then []
        else if IsSwitchOut r
          then [OnContextSwitchOut (GetTid r) (ucast (GetCpu r)) (GetTimestamp r)]
          else [OnContextSwitchIn (GetTid r) (ucast (GetCpu r)) (GetTimestamp r)]) \<and>
   (unat (GetCpu r) < 65536 \<longrightarrow> unat (ucast (GetCpu r) :: 16 word) = unat (GetCpu r)) \<and>
   (header_type r = PERF_RECORD_SWITCH_CPU_WIDE \<longrightarrow>
      process_record e r i s = Inr (ProcessContextSwitchCpuWideEvent r i s)) \<and>
   (case Run switch_env switch_tracer of
      Inl err \<Rightarrow> False
    | Inr s' \<Rightarrow> listener_calls s' = [OnContextSwitchOut 100 0 10])"
proof -
  have a: "listener_calls (ProcessContextSwitchCpuWideEvent r i s) =
     listener_calls s @
       (if GetTid r = 0 then []
        else if IsSwitchOut r
          then [OnContextSwitchOut (GetTid r) (ucast (GetCpu r)) (GetTimestamp r)]
          else [OnContextSwitchIn (GetTid r) (ucast (GetCpu r)) (GetTimestamp r)])"
    by (simp add: ProcessContextSwitchCpuWideEvent_def Let_def call_listener_def
          ConsumeRecord_def SkipRecord_def)
  have b: "unat (GetCpu r) < 65536 \<longrightarrow> unat (ucast (GetCpu r) :: 16 word) = unat (GetCpu r)"
    by (simp add: unsigned_ucast_eq take_bit_nat_eq_self unsigned_take_bit_eq)
  have c: "header_type r = PERF_RECORD_SWITCH_CPU_WIDE \<longrightarrow>
      process_record e r i s = Inr (ProcessContextSwitchCpuWideEvent r i s)"
    by (simp add: process_record_def PERF_RECORD_SWITCH_CPU_WIDE_def PERF_RECORD_SWITCH_def)
  have d: "case Run switch_env switch_tracer of
      Inl err \<Rightarrow> False
    | Inr s' \<Rightarrow> listener_calls s' = [OnContextSwitchOut 100 0 10]"
    by (simp add: run_defs scenario_defs)
  from a b c d show ?thesis by blast
qed

theorem ProcessContextSwitchCpuWideEvent_delivery_witness:
  "process_record switch_env (switch_out_record 100 0 10) 0 idle_tracer =
     Inr (ProcessContextSwitchCpuWideEvent (switch_out_record 100 0 10) 0 idle_tracer) \<and>
   listener_calls (ProcessContextSwitchCpuWideEvent (switch_out_record 100 0 10) 0 idle_tracer) =
     [OnContextSwitchOut 100 0 10] \<and>
   listener_calls (ProcessContextSwitchCpuWideEvent (switch_out_record 0 1 20) 1 idle_tracer) = [] \<and>
   unat (ucast (GetCpu (switch_out_record 0 1 20)) :: 16 word) = 1"
  using ProcessContextSwitchCpuWideEvent_delivery
      [where r = "switch_out_record 100 0 10" and i = 0 and s = idle_tracer and e = switch_env]
    ProcessContextSwitchCpuWideEvent_delivery
      [where r = "switch_out_record 0 1 20" and i = 1 and s = idle_tracer and e = switch_env]
  by (simp add: scenario_defs PERF_RECORD_SWITCH_CPU_WIDE_def)

subsection \<open>Lost records\<close>

lemma sum_list_add_lost: "sum_list (map snd (add_lost i n m)) = sum_list (map snd m) + n"
  by (induction m) (auto simp: add.assoc add.commute add.left_commute)

lemma map_of_add_lost:
  "map_of (add_lost i n m) i = Some ((case map_of m i of None \<Rightarrow> 0 | Some v \<Rightarrow> v) + n)"
  by (induction m) auto

lemma lost_consistent_ProcessLostEvent:
  "lost_consistent (stats s) \<Longrightarrow> lost_consistent (stats (ProcessLostEvent r i s))"
  by (simp add: lost_consistent_def ProcessLostEvent_def Let_def ConsumeRecord_def
        SkipRecord_def sum_list_add_lost)

lemma lost_fields_ProcessSampleEvent:
  "ProcessSampleEvent e r i s = Inr s' \<Longrightarrow>
     lost_count (stats s') = lost_count (stats s) \<and>
     lost_count_per_buffer (stats s') = lost_count_per_buffer (stats s)"
  by (auto simp: ProcessSampleEvent_def Let_def ConsumeRecord_def DeferEvent_def
        SkipRecord_def split: if_splits option.splits)

lemma lost_consistent_process_record:
  assumes "process_record e r i s = Inr s'" and "lost_consistent (stats s)"
  shows "lost_consistent (stats s')"
proof (cases "header_type r = PERF_RECORD_LOST")
  case True
  with assms(1) have "s' = ProcessLostEvent r i s"
    by (simp add: process_record_def PERF_RECORD_SWITCH_def PERF_RECORD_SWITCH_CPU_WIDE_def
          PERF_RECORD_MMAP_def PERF_RECORD_LOST_def PERF_RECORD_EXIT_def PERF_RECORD_FORK_def
          PERF_RECORD_SAMPLE_def)
  with assms(2) show ?thesis by (simp add: lost_consistent_ProcessLostEvent)
next
  case False
  with assms(1) have "lost_count (stats s') = lost_count (stats s) \<and>
     lost_count_per_buffer (stats s') = lost_count_per_buffer (stats s)"
    by (auto simp: process_record_def ProcessContextSwitchEvent_def
          ProcessContextSwitchCpuWideEvent_def ProcessForkEvent_def ProcessExitEvent_def
          ProcessMmapEvent_def Let_def ConsumeRecord_def DeferEvent_def call_listener_def
          read_clock_def SkipRecord_def dest: lost_fields_ProcessSampleEvent
          split: if_splits)
  with assms(2) show ?thesis by (simp add: lost_consistent_def)
qed

lemma lost_consistent_Stats_Reset: "lost_consistent (stats (Stats_Reset e s))"
  by (simp add: lost_consistent_def Stats_Reset_def read_clock_def)

lemma lost_consistent_PrintStatsIfTimerElapsed:
  "lost_consistent (stats s) \<Longrightarrow> lost_consistent (stats (PrintStatsIfTimerElapsed e s))"
  by (simp add: PrintStatsIfTimerElapsed_def read_clock_def lost_consistent_Stats_Reset)

lemma polling_lost_consistent: "polling e s0 s \<Longrightarrow> lost_consistent (stats s)"
proof (induction rule: polling.induct)
  case polling_start
  show ?case by (simp add: start_recording_def Let_def lost_consistent_Stats_Reset)
next
  case (polling_exit s)
  then show ?case by (simp add: read_exit_requested_def)
next
  case (polling_stats s)
  then show ?case by (simp add: lost_consistent_PrintStatsIfTimerElapsed)
next
  case (polling_record s r i s')
  then show ?case using lost_consistent_process_record by blast
qed

lemma polling_poll_ring_buffer:
  "polling e s0 (snd st) \<Longrightarrow> poll_ring_buffer e n i st = Inr st' \<Longrightarrow> polling e s0 (snd st')"
proof (induction n arbitrary: st)
  case 0
  then show ?case by simp
next
  case (Suc n)
  obtain saw s where st: "st = (saw, s)" by (cases st)
  let ?s1 = "snd (read_exit_requested s)"
  have p1: "polling e s0 ?s1" using Suc.prems(1) st by (simp add: polling_exit)
  show ?case
  proof (cases "fst (read_exit_requested s) \<or> \<not> HasNewData e (ring_buffers ?s1 ! i)")
    case True
    with Suc.prems(2) st have "snd st' = ?s1"
      by (auto simp: case_prod_beta split: if_splits)
    with p1 show ?thesis by simp
  next
    case False
    with Suc.prems(2) st obtain s2 where
      p: "process_record e (ReadHeader e (ring_buffers ?s1 ! i)) i ?s1 = Inr s2" and
      r: "poll_ring_buffer e n i (True, s2) = Inr st'"
      by (auto simp: case_prod_beta split: sum.splits)
    from polling_record [OF p1 p] have "polling e s0 (snd (True, s2))" by simp
    from Suc.IH [OF this r] show ?thesis .
  qed
qed

lemma polling_poll_ring_buffers:
  "polling e s0 (snd st) \<Longrightarrow> poll_ring_buffers e is st = Inr st' \<Longrightarrow> polling e s0 (snd st')"
proof (induction "is" arbitrary: st)
  case Nil
  then show ?case by simp
next
  case (Cons i "is")
  obtain saw s where st: "st = (saw, s)" by (cases st)
  let ?s1 = "snd (read_exit_requested s)"
  have p1: "polling e s0 ?s1" using Cons.prems(1) st by (simp add: polling_exit)
  show ?case
  proof (cases "fst (read_exit_requested s)")
    case True
    with Cons.prems(2) st have "snd st' = ?s1"
      by (auto simp: case_prod_beta)
    with p1 show ?thesis by simp
  next
    case False
    with Cons.prems(2) st obtain st1 where
      p: "poll_ring_buffer e ROUND_ROBIN_POLLING_BATCH_SIZE i (saw, ?s1) = Inr st1" and
      r: "poll_ring_buffers e is st1 = Inr st'"
      by (auto simp: case_prod_beta split: sum.splits)
    from polling_poll_ring_buffer [OF _ p] p1 have "polling e s0 (snd st1)" by simp
    from Cons.IH [OF this r] show ?thesis .
  qed
qed

lemma polling_tracer_iteration:
  assumes "polling e s0 s" and "tracer_iteration e saw s = Inr st'"
  shows "polling e s0 (snd st')"
proof -
  define s1 where "s1 = (if \<not> saw then PrintStatsIfTimerElapsed e s else s)"
  have "polling e s0 s1" using assms(1) by (simp add: s1_def polling_stats)
  moreover from assms(2)
  have "poll_ring_buffers e [0..<length (ring_buffers s1)] (False, s1) = Inr st'"
    by (cases saw) (simp_all add: tracer_iteration_def s1_def Let_def)
  ultimately show ?thesis using polling_poll_ring_buffers [of e s0 "(False, s1)"] by simp
qed

lemma polling_main_loop:
  "polling e s0 s \<Longrightarrow> main_loop e saw s = Inr s' \<Longrightarrow> polling e s0 s'"
proof (induction e saw s rule: main_loop.induct)
  case (1 e saw s)
  let ?s1 = "snd (read_exit_requested s)"
  have p1: "polling e s0 ?s1" using "1.prems"(1) by (simp add: polling_exit)
  show ?case
  proof (cases "fst (read_exit_requested s)")
    case True
    with "1.prems"(2) have "s' = ?s1"
      by (subst (asm) main_loop.simps) (auto simp: case_prod_beta)
    with p1 show ?thesis by simp
  next
    case False
    with "1.prems"(2) obtain saw2 s2 where
      t: "tracer_iteration e saw ?s1 = Inr (saw2, s2)" and
      r: "main_loop e saw2 s2 = Inr s'"
      by (subst (asm) main_loop.simps) (auto simp: case_prod_beta split: sum.splits)
    from polling_tracer_iteration [OF p1 t] have p2: "polling e s0 s2" by simp
    show ?thesis
      by (rule "1.IH" [OF _ _ t _ p2 r]) (use False in \<open>auto simp: prod_eq_iff\<close>)
  qed
qed

text \<open>
  C8. In every state the tracer passes through from the start of recording (after each
  read of \<open>exit_requested\<close>, each print of the statistics and each record processed),
  \<open>lost_count\<close> is the sum of \<open>lost_count_per_buffer\<close> over the ring buffers, in
  64-bit arithmetic; the state in which the while loop ends is such a state. A
  PERF_RECORD_LOST adds its count to the total and to the entry of the ring buffer it
  was read from, and the reset of the statistics clears both.
\<close>

theorem lost_count_is_sum_per_buffer:
  "(polling e s0 s \<longrightarrow> lost_consistent (stats s)) \<and>
   (main_loop e False (start_recording e s0) = Inr s' \<longrightarrow> polling e s0 s') \<and>
   lost_count (stats (ProcessLostEvent r i s)) = lost_count (stats s) + GetNumLost r \<and>
   map_of (lost_count_per_buffer (stats (ProcessLostEvent r i s))) i =
     Some ((case map_of (lost_count_per_buffer (stats s)) i of None \<Rightarrow> 0 | Some v \<Rightarrow> v)
           + GetNumLost r) \<and>
   lost_count (stats (Stats_Reset e s)) = 0 \<and>
   lost_count_per_buffer (stats (Stats_Reset e s)) = []"
proof -
  have "main_loop e False (start_recording e s0) = Inr s' \<longrightarrow> polling e s0 s'"
    using polling_main_loop [OF polling_start] by blast
  then show ?thesis
    by (simp add: polling_lost_consistent ProcessLostEvent_def Let_def ConsumeRecord_def
          SkipRecord_def map_of_add_lost Stats_Reset_def read_clock_def)
qed

text \<open>The fifth scenario of the spec, run to the end.\<close>

theorem lost_count_is_sum_per_buffer_witness:
  "lost_consistent (stats (projr (Run lost_env sampling_tracer))) \<and>
   lost_count (stats (projr (Run lost_env sampling_tracer))) = 17 \<and>
   lost_count_per_buffer (stats (projr (Run lost_env sampling_tracer))) = [(1, 17)]"
proof -
  let ?s0 = "opened_tracer lost_env sampling_tracer"
  let ?s1 = "projr (main_loop lost_env False (start_recording lost_env ?s0))"
  have m: "main_loop lost_env False (start_recording lost_env ?s0) = Inr ?s1"
    by (simp add: run_defs scenario_defs)
  have r: "stats (projr (Run lost_env sampling_tracer)) = stats ?s1"
    by (simp add: run_defs scenario_defs)
  have v: "lost_count (stats ?s1) = 17" "lost_count_per_buffer (stats ?s1) = [(1, 17)]"
    by (simp_all add: run_defs scenario_defs)
  from lost_count_is_sum_per_buffer [where e = lost_env and ?s0.0 = ?s0 and s = ?s1 and s' = ?s1] m
  have "lost_consistent (stats ?s1)" by blast
  with r v show ?thesis by simp
qed

subsection \<open>Descriptors during the opening phase\<close>

lemma probe_opens_append [simp]: "probe_opens (xs @ ys) = probe_opens xs @ probe_opens ys"
  by (induction xs rule: probe_opens.induct) simp_all

lemma probe_opens_map_Close [simp]: "probe_opens (map Close fds) = []"
  by (induction fds) simp_all

lemma probe_opens_unmap_actions [simp]: "probe_opens (unmap_actions rbs) = []"
  by (induction rbs) (simp_all add: unmap_actions_def)

lemma probe_opens_iff:
  "(src, f) \<in> set (probe_opens as) \<longleftrightarrow>
     Open src f \<in> set as \<and>
     (\<exists>p off c. src = uprobes_stack_event p off c \<or> src = uretprobes_event p off c)"
  by (induction as rule: probe_opens.induct) auto

lemma extends_refl: "extends s s"
  by (simp add: extends_def)

lemma extendsI:
  assumes "next_fd s \<le> next_fd s'"
    and "tracing_fds s' = tracing_fds s @ nt"
    and "opened_fds (trace s') = opened_fds (trace s) @ no"
    and "closed_fds (trace s') = closed_fds (trace s) @ nc"
    and "distinct nt"
    and "\<forall>f\<in>set nt. int (next_fd s) \<le> f \<and> f < int (next_fd s')"
    and "\<forall>f\<in>set no. int (next_fd s) \<le> f \<and> f < int (next_fd s')"
    and "\<forall>f\<in>set nc. int (next_fd s) \<le> f \<and> f < int (next_fd s')"
    and "\<forall>f\<in>set nc. f \<notin> set nt"
  shows "extends s s'"
  unfolding extends_def using assms by blast

lemma extends_trans:
  assumes "extends s s1" and "extends s1 s2"
  shows "extends s s2"
proof -
  from assms(1) obtain nt1 no1 nc1 where
    a: "next_fd s \<le> next_fd s1" "tracing_fds s1 = tracing_fds s @ nt1"
       "opened_fds (trace s1) = opened_fds (trace s) @ no1"
       "closed_fds (trace s1) = closed_fds (trace s) @ nc1" "distinct nt1"
       "\<forall>f\<in>set nt1. int (next_fd s) \<le> f \<and> f < int (next_fd s1)"
       "\<forall>f\<in>set no1. int (next_fd s) \<le> f \<and> f < int (next_fd s1)"
       "\<forall>f\<in>set nc1. int (next_fd s) \<le> f \<and> f < int (next_fd s1)"
       "\<forall>f\<in>set nc1. f \<notin> set nt1"
    unfolding extends_def by blast
  from assms(2) obtain nt2 no2 nc2 where
    b: "next_fd s1 \<le> next_fd s2" "tracing_fds s2 = tracing_fds s1 @ nt2"
       "opened_fds (trace s2) = opened_fds (trace s1) @ no2"
       "closed_fds (trace s2) = closed_fds (trace s1) @ nc2" "distinct nt2"
       "\<forall>f\<in>set nt2. int (next_fd s1) \<le> f \<and> f < int (next_fd s2)"
       "\<forall>f\<in>set no2. int (next_fd s1) \<le> f \<and> f < int (next_fd s2)"
       "\<forall>f\<in>set nc2. int (next_fd s1) \<le> f \<and> f < int (next_fd s2)"
       "\<forall>f\<in>set nc2. f \<notin> set nt2"
    unfolding extends_def by blast
  show ?thesis
  proof (rule extendsI [where nt = "nt1 @ nt2" and no = "no1 @ no2" and nc = "nc1 @ nc2"])
    show "next_fd s \<le> next_fd s2" using a(1) b(1) by simp
    show "tracing_fds s2 = tracing_fds s @ nt1 @ nt2" using a(2) b(2) by simp
    show "opened_fds (trace s2) = opened_fds (trace s) @ no1 @ no2" using a(3) b(3) by simp
    show "closed_fds (trace s2) = closed_fds (trace s) @ nc1 @ nc2" using a(4) b(4) by simp
    show "distinct (nt1 @ nt2)" using a(5) b(5) a(6) b(6) by force
    show "\<forall>f\<in>set (nt1 @ nt2). int (next_fd s) \<le> f \<and> f < int (next_fd s2)"
      using a(1) b(1) a(6) b(6) by force
    show "\<forall>f\<in>set (no1 @ no2). int (next_fd s) \<le> f \<and> f < int (next_fd s2)"
      using a(1) b(1) a(7) b(7) by force
    show "\<forall>f\<in>set (nc1 @ nc2). int (next_fd s) \<le> f \<and> f < int (next_fd s2)"
      using a(1) b(1) a(8) b(8) by force
    show "\<forall>f\<in>set (nc1 @ nc2). f \<notin> set (nt1 @ nt2)"
      using a(6,8,9) b(6,8,9) by force
  qed
qed

lemma tracked_ok_extends:
  assumes "tracked_ok s" and "extends s s'"
  shows "tracked_ok s'"
proof -
  from assms(2) obtain nt no nc where
    a: "next_fd s \<le> next_fd s'" "tracing_fds s' = tracing_fds s @ nt"
       "opened_fds (trace s') = opened_fds (trace s) @ no"
       "closed_fds (trace s') = closed_fds (trace s) @ nc" "distinct nt"
       "\<forall>f\<in>set nt. int (next_fd s) \<le> f \<and> f < int (next_fd s')"
       "\<forall>f\<in>set no. int (next_fd s) \<le> f \<and> f < int (next_fd s')"
       "\<forall>f\<in>set nc. int (next_fd s) \<le> f \<and> f < int (next_fd s')"
       "\<forall>f\<in>set nc. f \<notin> set nt"
    unfolding extends_def by blast
  from assms(1) have
    b: "distinct (tracing_fds s)"
       "\<And>f. f \<in> set (tracing_fds s) \<Longrightarrow> f < int (next_fd s)"
       "\<And>f. f \<in> set (opened_fds (trace s)) \<Longrightarrow> f < int (next_fd s)"
       "\<And>f. f \<in> set (closed_fds (trace s)) \<Longrightarrow> f < int (next_fd s)"
       "\<And>f. f \<in> set (closed_fds (trace s)) \<Longrightarrow> f \<notin> set (tracing_fds s)"
    unfolding tracked_ok_def by blast+
  have 1: "distinct (tracing_fds s')" using a(2,5) a(6) b(1,2) by force
  have 2: "\<forall>f\<in>set (tracing_fds s'). f < int (next_fd s')"
    using a(1,2) a(6) b(2) by force
  have 3: "\<forall>f\<in>set (opened_fds (trace s')). f < int (next_fd s')"
    using a(1,3) a(7) b(3) by force
  have 4: "\<forall>f\<in>set (closed_fds (trace s')). f < int (next_fd s')"
    using a(1,4) a(8) b(4) by force
  have 5: "set (closed_fds (trace s')) \<inter> set (tracing_fds s') = {}"
    using a(2,4) a(6,8,9) b(2,4,5) by force
  show ?thesis unfolding tracked_ok_def using 1 2 3 4 5 by blast
qed

lemma probes_post_step:
  assumes post: "probes_post e fn cpus (up @ [(c, int (next_fd s))])
                   (uret @ [(c, int (Suc (next_fd s)))]) s2 res"
    and s2: "s2 = s\<lparr>next_fd := Suc (Suc (next_fd s)),
                    trace := trace s @
                      [Open (uprobes_stack_event (BinaryPath fn) (FileOffset fn) c) (int (next_fd s)),
                       Open (uretprobes_event (BinaryPath fn) (FileOffset fn) c)
                         (int (Suc (next_fd s)))]\<rparr>"
    and ok: "open_succeeds e (uprobes_stack_event (BinaryPath fn) (FileOffset fn) c)"
            "open_succeeds e (uretprobes_event (BinaryPath fn) (FileOffset fn) c)"
  shows "probes_post e fn (c # cpus) up uret s res"
proof -
  let ?U = "\<lambda>c. uprobes_stack_event (BinaryPath fn) (FileOffset fn) c"
  let ?R = "\<lambda>c. uretprobes_event (BinaryPath fn) (FileOffset fn) c"
  let ?n = "next_fd s"
  obtain err up' uret' s' where res: "res = (err, up', uret', s')" by (cases res)
  from post [unfolded probes_post_def res prod.case] obtain nu nr no np where
    p1: "s' = s2\<lparr>next_fd := next_fd s', trace := trace s'\<rparr>" and
    p2: "next_fd s2 \<le> next_fd s'" and
    p3: "err = (\<exists>c\<in>set cpus. \<not> open_succeeds e (?U c) \<or> \<not> open_succeeds e (?R c))" and
    p4: "closed_fds (trace s') = closed_fds (trace s2)" and
    p5: "up' = (up @ [(c, int ?n)]) @ nu" "uret' = (uret @ [(c, int (Suc ?n))]) @ nr" and
    p6: "\<not> err \<longrightarrow> map fst nu = cpus \<and> map fst nr = cpus" and
    p7: "distinct (map snd nu @ map snd nr)" and
    p8: "\<forall>f\<in>set (map snd nu @ map snd nr). int (next_fd s2) \<le> f \<and> f < int (next_fd s')" and
    p9: "opened_fds (trace s') = opened_fds (trace s2) @ no" "mset no = mset (map snd nu @ map snd nr)" and
    p10: "probe_opens (trace s') = probe_opens (trace s2) @ np"
         "set np = (\<lambda>(c, f). (?U c, f)) ` set nu \<union> (\<lambda>(c, f). (?R c, f)) ` set nr"
    by (elim exE conjE) (rule that; assumption)
  have n2: "next_fd s2 = Suc (Suc ?n)" using s2 by simp
  let ?nu = "(c, int ?n) # nu" and ?nr = "(c, int (Suc ?n)) # nr"
  let ?no = "[int ?n, int (Suc ?n)] @ no"
  let ?np = "[(?U c, int ?n), (?R c, int (Suc ?n))] @ np"
  have a1: "s' = s\<lparr>next_fd := next_fd s', trace := trace s'\<rparr>"
    using tracer_frame_trans [OF s2 p1] .
  have a2: "next_fd s \<le> next_fd s'" using p2 n2 by simp
  have a3: "err = (\<exists>c\<in>set (c # cpus). \<not> open_succeeds e (?U c) \<or> \<not> open_succeeds e (?R c))"
    using p3 ok by simp
  have a4: "closed_fds (trace s') = closed_fds (trace s)" using p4 s2 by simp
  have a5: "up' = up @ ?nu" "uret' = uret @ ?nr" using p5 by simp_all
  have a6: "\<not> err \<longrightarrow> map fst ?nu = c # cpus \<and> map fst ?nr = c # cpus" using p6 by simp
  have r1: "int (Suc (Suc ?n)) \<le> f \<and> f < int (next_fd s')" if "(a, f) \<in> set nu" for a f
  proof -
    from that have "f \<in> set (map snd nu @ map snd nr)" by force
    with p8 n2 show ?thesis by simp
  qed
  have r2: "int (Suc (Suc ?n)) \<le> f \<and> f < int (next_fd s')" if "(a, f) \<in> set nr" for a f
  proof -
    from that have "f \<in> set (map snd nu @ map snd nr)" by force
    with p8 n2 show ?thesis by simp
  qed
  have a7: "distinct (map snd ?nu @ map snd ?nr)"
    using p7 by (auto dest: r1 r2)
  have a8: "\<forall>f\<in>set (map snd ?nu @ map snd ?nr). int ?n \<le> f \<and> f < int (next_fd s')"
    using p2 n2 by (auto dest: r1 r2)
  have a9: "opened_fds (trace s') = opened_fds (trace s) @ ?no" using p9(1) s2 by simp
  have a10: "mset ?no = mset (map snd ?nu @ map snd ?nr)" using p9(2) by simp
  have a11: "probe_opens (trace s') = probe_opens (trace s) @ ?np" using p10(1) s2 by simp
  have a12: "set ?np = (\<lambda>(c, f). (?U c, f)) ` set ?nu \<union> (\<lambda>(c, f). (?R c, f)) ` set ?nr"
    using p10(2) by auto
  show ?thesis
    unfolding probes_post_def res
    apply (simp only: prod.case)
    apply (intro conjI)
        apply (rule a1)
       apply (rule a2)
      apply (rule a3)
     apply (rule a4)
    apply (rule exI [of _ ?nu], rule exI [of _ ?nr], rule exI [of _ ?no], rule exI [of _ ?np])
    apply (intro conjI)
            apply (fact a5(1))
           apply (fact a5(2))
          apply (fact a6)
         apply (fact a7)
        apply (fact a8)
       apply (fact a9)
      apply (fact a10)
     apply (fact a11)
    apply (fact a12)
    done
qed

lemma open_probes_post:
  "distinct cpus \<Longrightarrow> set cpus \<inter> fst ` set up = {} \<Longrightarrow> set cpus \<inter> fst ` set uret = {} \<Longrightarrow>
     probes_post e fn cpus up uret s (open_probes e fn cpus up uret s)"
proof (induction cpus arbitrary: up uret s)
  case Nil
  show ?case by (simp add: probes_post_def)
next
  case (Cons c cpus)
  let ?U = "uprobes_stack_event (BinaryPath fn) (FileOffset fn) c"
  let ?R = "uretprobes_event (BinaryPath fn) (FileOffset fn) c"
  have em: "emplace c f up = up @ [(c, f)]" "emplace c f uret = uret @ [(c, f)]" for f
    using Cons.prems(2,3) by (auto simp: emplace_def)
  consider (f1) "\<not> open_succeeds e ?U"
    | (f2) "open_succeeds e ?U" "\<not> open_succeeds e ?R"
    | (ok) "open_succeeds e ?U" "open_succeeds e ?R"
    by blast
  then show ?case
  proof cases
    case f1
    then show ?thesis
      by (auto simp: probes_post_def perf_event_open_def)
  next
    case f2
    have "probes_post e fn (c # cpus) up uret s
            (True, up @ [(c, int (next_fd s))], uret,
             s\<lparr>next_fd := Suc (next_fd s), trace := trace s @ [Open ?U (int (next_fd s))]\<rparr>)"
      unfolding probes_post_def
      apply (simp only: prod.case)
      apply (intro conjI)
          apply simp
         apply simp
      using f2 apply simp
       apply simp
      apply (rule exI [of _ "[(c, int (next_fd s))]"], rule exI [of _ "[]"],
          rule exI [of _ "[int (next_fd s)]"], rule exI [of _ "[(?U, int (next_fd s))]"])
      apply simp
      done
    with f2 show ?thesis by (simp add: perf_event_open_def em)
  next
    case ok
    let ?s2 = "s\<lparr>next_fd := Suc (Suc (next_fd s)),
                  trace := trace s @ [Open ?U (int (next_fd s)), Open ?R (int (Suc (next_fd s)))]\<rparr>"
    have d: "distinct cpus" "set cpus \<inter> fst ` set (up @ [(c, int (next_fd s))]) = {}"
      "set cpus \<inter> fst ` set (uret @ [(c, int (Suc (next_fd s)))]) = {}"
      using Cons.prems by auto
    have "probes_post e fn (c # cpus) up uret s
            (open_probes e fn cpus (up @ [(c, int (next_fd s))])
               (uret @ [(c, int (Suc (next_fd s)))]) ?s2)"
      by (rule probes_post_step [OF Cons.IH [OF d] refl ok])
    moreover have "open_probes e fn (c # cpus) up uret s =
        open_probes e fn cpus (up @ [(c, int (next_fd s))])
               (uret @ [(c, int (Suc (next_fd s)))]) ?s2"
      using ok by (simp add: perf_event_open_def em)
    ultimately show ?thesis by simp
  qed
qed

lemma before_append: "before x y xs \<Longrightarrow> before x y (xs @ ys)"
  unfolding before_def by (metis append.assoc append_Cons)

lemma before_parts:
  assumes "x \<in> set xs" and "y \<in> set ys"
  shows "before x y (as @ xs @ ys)"
proof -
  from assms(1) obtain a1 a2 where xs: "xs = a1 @ x # a2" by (meson split_list)
  from assms(2) obtain b1 b2 where ys: "ys = b1 @ y # b2" by (meson split_list)
  have "as @ xs @ ys = (as @ a1) @ x # (a2 @ b1) @ y # b2" by (simp add: xs ys)
  then show ?thesis unfolding before_def by blast
qed

lemma probe_opens_opened: "(src, f) \<in> set (probe_opens as) \<Longrightarrow> f \<in> set (opened_fds as)"
  by (induction as rule: probe_opens.induct) auto

lemma redirect_probes_post:
  "set cpus \<subseteq> fst ` set up \<Longrightarrow> set cpus \<subseteq> fst ` set uret \<Longrightarrow>
     \<exists>m' s'. redirect_probes e cpus up uret m s = Inr (m', s') \<and>
       tracing_fds s' = tracing_fds s \<and> next_fd s' = next_fd s \<and>
       opened_fds (trace s') = opened_fds (trace s) \<and>
       closed_fds (trace s') = closed_fds (trace s) \<and>
       probe_opens (trace s') = probe_opens (trace s) \<and>
       uprobes_ids_to_function s' = uprobes_ids_to_function s \<and> pid s' = pid s"
proof (induction cpus arbitrary: m s)
  case Nil
  show ?case by simp
next
  case (Cons c cpus)
  from Cons.prems obtain fu fr where
    fu: "map_of up c = Some fu" and fr: "map_of uret c = Some fr"
    by (metis list.set_intros(1) map_of_eq_None_iff not_Some_eq subsetD)
  have sub: "set cpus \<subseteq> fst ` set up" "set cpus \<subseteq> fst ` set uret"
    using Cons.prems by auto
  show ?case
  proof (cases "map_of m c")
    case (Some rb)
    let ?s1 = "perf_event_redirect fr rb (perf_event_redirect fu rb s)"
    from Cons.IH [OF sub, of m ?s1] obtain m' s' where
      r: "redirect_probes e cpus up uret m ?s1 = Inr (m', s')"
         "tracing_fds s' = tracing_fds ?s1" "next_fd s' = next_fd ?s1"
         "opened_fds (trace s') = opened_fds (trace ?s1)"
         "closed_fds (trace s') = closed_fds (trace ?s1)"
         "probe_opens (trace s') = probe_opens (trace ?s1)"
         "uprobes_ids_to_function s' = uprobes_ids_to_function ?s1" "pid s' = pid ?s1"
      by blast
    have "redirect_probes e (c # cpus) up uret m s = Inr (m', s')"
      using fu fr Some r(1) by simp
    with r(2-) show ?thesis by (simp add: perf_event_redirect_def)
  next
    case None
    let ?rb = "fst (new_PerfEventRingBuffer e fu s)"
    let ?s0 = "snd (new_PerfEventRingBuffer e fu s)"
    let ?s1 = "perf_event_redirect fr fu
                 (?s0\<lparr>ring_buffers := ring_buffers ?s0 @ [?rb],
                      uprobes_fds := insert fu (uprobes_fds ?s0)\<rparr>)"
    from Cons.IH [OF sub, of "assign c fu m" ?s1] obtain m' s' where
      r: "redirect_probes e cpus up uret (assign c fu m) ?s1 = Inr (m', s')"
         "tracing_fds s' = tracing_fds ?s1" "next_fd s' = next_fd ?s1"
         "opened_fds (trace s') = opened_fds (trace ?s1)"
         "closed_fds (trace s') = closed_fds (trace ?s1)"
         "probe_opens (trace s') = probe_opens (trace ?s1)"
         "uprobes_ids_to_function s' = uprobes_ids_to_function ?s1" "pid s' = pid ?s1"
      by blast
    have "redirect_probes e (c # cpus) up uret m s = Inr (m', s')"
      using fu fr None r(1) by (simp add: case_prod_beta)
    with r(2-) show ?thesis
      by (simp add: perf_event_redirect_def new_PerfEventRingBuffer_def)
  qed
qed

lemma instrument_function_rollback:
  assumes "fst (open_probes e fn cpus [] [] s)"
  shows "instrument_function e cpus fn (m, pe, ue, s) =
           Inr (m, True, True,
                CloseFileDescriptors (map snd (iterate e (function_uretprobes e fn cpus s)))
                  (CloseFileDescriptors (map snd (iterate e (function_uprobes e fn cpus s)))
                     (probes_tracer e fn cpus s)))"
  using assms
  by (simp add: instrument_function_def function_uprobes_def function_uretprobes_def
        probes_tracer_def case_prod_beta)

lemma set_iterate [simp]: "set (iterate e m) = set m"
  by (simp add: iterate_def)

lemma mset_iterate [simp]: "mset (iterate e m) = mset m"
  by (simp add: iterate_def)

lemma instrument_function_commit:
  assumes "\<not> fst (open_probes e fn cpus [] [] s)" and "distinct cpus"
  shows "\<exists>m' s'. instrument_function e cpus fn (m, pe, ue, s) = Inr (m', pe, ue, s') \<and>
       tracing_fds s' = tracing_fds s @ map snd (iterate e (function_uretprobes e fn cpus s))
                          @ map snd (iterate e (function_uprobes e fn cpus s)) \<and>
       next_fd s' = next_fd (probes_tracer e fn cpus s) \<and>
       opened_fds (trace s') = opened_fds (trace (probes_tracer e fn cpus s)) \<and>
       closed_fds (trace s') = closed_fds (trace s) \<and>
       probe_opens (trace s') = probe_opens (trace (probes_tracer e fn cpus s)) \<and>
       uprobes_ids_to_function s' =
         record_stream_ids e fn (map snd (iterate e (function_uretprobes e fn cpus s)))
           (record_stream_ids e fn (map snd (iterate e (function_uprobes e fn cpus s)))
              (uprobes_ids_to_function s)) \<and>
       pid s' = pid s"
proof -
  obtain err up uret s1 where op: "open_probes e fn cpus [] [] s = (err, up, uret, s1)"
    by (cases "open_probes e fn cpus [] [] s")
  with assms(1) have err: "\<not> err" by simp
  from open_probes_post [OF assms(2), of "[]" "[]" e fn s] op
  have post: "probes_post e fn cpus [] [] s (err, up, uret, s1)" by simp
  from post [unfolded probes_post_def prod.case] obtain nu nr no np where
    p1: "s1 = s\<lparr>next_fd := next_fd s1, trace := trace s1\<rparr>" and
    p4: "closed_fds (trace s1) = closed_fds (trace s)" and
    p5: "up = [] @ nu" "uret = [] @ nr" and
    p6: "\<not> err \<longrightarrow> map fst nu = cpus \<and> map fst nr = cpus"
    by (elim exE conjE) (rule that; assumption)
  have keys: "set cpus \<subseteq> fst ` set up" "set cpus \<subseteq> fst ` set uret"
    using p5 p6 err by (metis append_Nil list.set_map subset_refl)+
  have fr: "tracing_fds s1 = tracing_fds s" "uprobes_ids_to_function s1 = uprobes_ids_to_function s"
    "pid s1 = pid s"
    by (subst p1, simp)+
  let ?rets = "map snd (iterate e uret)" and ?entries = "map snd (iterate e up)"
  let ?s2 = "s1\<lparr>tracing_fds := tracing_fds s1 @ ?rets @ ?entries\<rparr>"
  let ?s3 = "?s2\<lparr>uprobes_ids_to_function :=
               record_stream_ids e fn ?rets
                 (record_stream_ids e fn ?entries (uprobes_ids_to_function ?s2))\<rparr>"
  from redirect_probes_post [OF keys, of e m ?s3] obtain m' s' where
    r: "redirect_probes e cpus up uret m ?s3 = Inr (m', s')"
       "tracing_fds s' = tracing_fds ?s3" "next_fd s' = next_fd ?s3"
       "opened_fds (trace s') = opened_fds (trace ?s3)"
       "closed_fds (trace s') = closed_fds (trace ?s3)"
       "probe_opens (trace s') = probe_opens (trace ?s3)"
       "uprobes_ids_to_function s' = uprobes_ids_to_function ?s3" "pid s' = pid ?s3"
    by blast
  have "instrument_function e cpus fn (m, pe, ue, s) = Inr (m', pe, ue, s')"
    using op err r(1) by (simp add: instrument_function_def Let_def)
  with r(2-) op fr p4 show ?thesis
    by (simp add: function_uprobes_def function_uretprobes_def probes_tracer_def)
qed

lemma function_probes_facts:
  assumes "distinct cpus"
  shows "\<exists>no np.
     probes_tracer e fn cpus s =
       s\<lparr>next_fd := next_fd (probes_tracer e fn cpus s),
          trace := trace (probes_tracer e fn cpus s)\<rparr> \<and>
     next_fd s \<le> next_fd (probes_tracer e fn cpus s) \<and>
     fst (open_probes e fn cpus [] [] s) =
       (\<exists>c\<in>set cpus.
          \<not> open_succeeds e (uprobes_stack_event (BinaryPath fn) (FileOffset fn) c) \<or>
          \<not> open_succeeds e (uretprobes_event (BinaryPath fn) (FileOffset fn) c)) \<and>
     closed_fds (trace (probes_tracer e fn cpus s)) = closed_fds (trace s) \<and>
     (\<not> fst (open_probes e fn cpus [] [] s) \<longrightarrow>
        map fst (function_uprobes e fn cpus s) = cpus \<and>
        map fst (function_uretprobes e fn cpus s) = cpus) \<and>
     distinct (map snd (function_uprobes e fn cpus s) @ map snd (function_uretprobes e fn cpus s)) \<and>
     (\<forall>f\<in>set (map snd (function_uprobes e fn cpus s) @ map snd (function_uretprobes e fn cpus s)).
        int (next_fd s) \<le> f \<and> f < int (next_fd (probes_tracer e fn cpus s))) \<and>
     opened_fds (trace (probes_tracer e fn cpus s)) = opened_fds (trace s) @ no \<and>
     mset no = mset (map snd (function_uprobes e fn cpus s) @ map snd (function_uretprobes e fn cpus s)) \<and>
     probe_opens (trace (probes_tracer e fn cpus s)) = probe_opens (trace s) @ np \<and>
     set np =
       (\<lambda>(c, f). (uprobes_stack_event (BinaryPath fn) (FileOffset fn) c, f)) `
         set (function_uprobes e fn cpus s) \<union>
       (\<lambda>(c, f). (uretprobes_event (BinaryPath fn) (FileOffset fn) c, f)) `
         set (function_uretprobes e fn cpus s)"
proof -
  obtain err up uret s1 where op: "open_probes e fn cpus [] [] s = (err, up, uret, s1)"
    by (cases "open_probes e fn cpus [] [] s")
  from open_probes_post [OF assms, of "[]" "[]" e fn s] op
  have post: "probes_post e fn cpus [] [] s (err, up, uret, s1)" by simp
  from post [unfolded probes_post_def prod.case] obtain nu nr no np where
    p: "s1 = s\<lparr>next_fd := next_fd s1, trace := trace s1\<rparr>"
       "next_fd s \<le> next_fd s1"
       "err = (\<exists>c\<in>set cpus.
                 \<not> open_succeeds e (uprobes_stack_event (BinaryPath fn) (FileOffset fn) c) \<or>
                 \<not> open_succeeds e (uretprobes_event (BinaryPath fn) (FileOffset fn) c))"
       "closed_fds (trace s1) = closed_fds (trace s)"
       "up = [] @ nu" "uret = [] @ nr"
       "\<not> err \<longrightarrow> map fst nu = cpus \<and> map fst nr = cpus"
       "distinct (map snd nu @ map snd nr)"
       "\<forall>f\<in>set (map snd nu @ map snd nr). int (next_fd s) \<le> f \<and> f < int (next_fd s1)"
       "opened_fds (trace s1) = opened_fds (trace s) @ no"
       "mset no = mset (map snd nu @ map snd nr)"
       "probe_opens (trace s1) = probe_opens (trace s) @ np"
       "set np =
         (\<lambda>(c, f). (uprobes_stack_event (BinaryPath fn) (FileOffset fn) c, f)) ` set nu \<union>
         (\<lambda>(c, f). (uretprobes_event (BinaryPath fn) (FileOffset fn) c, f)) ` set nr"
    by (elim exE conjE) (rule that; assumption)
  have u: "function_uprobes e fn cpus s = nu" "function_uretprobes e fn cpus s = nr"
    using op p(5,6) by (simp_all add: function_uprobes_def function_uretprobes_def)
  have u3: "probes_tracer e fn cpus s = s1"
    using op by (simp add: probes_tracer_def)
  show ?thesis
    apply (rule exI [of _ no], rule exI [of _ np])
    unfolding u u3 op fst_conv snd_conv
    apply (intro conjI)
    apply (fact p(1)) apply (fact p(2)) apply (fact p(3)) apply (fact p(4))
    apply (fact p(7)) apply (fact p(8)) apply (fact p(9)) apply (fact p(10))
    apply (fact p(11)) apply (fact p(12)) apply (fact p(13))
    done
qed

lemma opened_fds_map_Close_o [simp]: "opened_fds (map (Close \<circ> g) xs) = []"
  by (induction xs) simp_all

lemma closed_fds_map_Close_o [simp]: "closed_fds (map (Close \<circ> g) xs) = map g xs"
  by (induction xs) simp_all

lemma probe_opens_map_Close_o [simp]: "probe_opens (map (Close \<circ> g) xs) = []"
  by (induction xs) simp_all

lemma instrument_function_extends:
  assumes d: "distinct cpus"
    and r: "instrument_function e cpus fn (m, pe, ue, s) = Inr (m', pe', ue', s')"
  shows "extends s s'"
proof -
  let ?s1 = "probes_tracer e fn cpus s"
  let ?nu = "function_uprobes e fn cpus s" and ?nr = "function_uretprobes e fn cpus s"
  from function_probes_facts [OF d, of e fn s] obtain no np where
    f: "?s1 = s\<lparr>next_fd := next_fd ?s1, trace := trace ?s1\<rparr>"
       "next_fd s \<le> next_fd ?s1"
       "closed_fds (trace ?s1) = closed_fds (trace s)"
       "distinct (map snd ?nu @ map snd ?nr)"
       "\<forall>f\<in>set (map snd ?nu @ map snd ?nr). int (next_fd s) \<le> f \<and> f < int (next_fd ?s1)"
       "opened_fds (trace ?s1) = opened_fds (trace s) @ no"
       "mset no = mset (map snd ?nu @ map snd ?nr)"
    by (elim exE conjE) (rule that; assumption)
  have t1: "tracing_fds ?s1 = tracing_fds s" by (subst f(1)) simp
  have sno: "set no = set (map snd ?nu @ map snd ?nr)" using f(7) by (rule mset_eq_setD)
  show ?thesis
  proof (cases "fst (open_probes e fn cpus [] [] s)")
    case True
    from instrument_function_rollback [OF True, of m pe ue] r
    have s': "s' = CloseFileDescriptors (map snd (iterate e ?nr))
                     (CloseFileDescriptors (map snd (iterate e ?nu)) ?s1)"
      by simp
    show ?thesis
    proof (rule extendsI [where nt = "[]" and no = no
          and nc = "map snd (iterate e ?nu) @ map snd (iterate e ?nr)"])
      show "next_fd s \<le> next_fd s'" using f(2) by (simp add: s' CloseFileDescriptors_def)
      show "tracing_fds s' = tracing_fds s @ []" using t1 by (simp add: s' CloseFileDescriptors_def)
      show "opened_fds (trace s') = opened_fds (trace s) @ no"
        using f(6) by (simp add: s' CloseFileDescriptors_def)
      show "closed_fds (trace s') =
              closed_fds (trace s) @ map snd (iterate e ?nu) @ map snd (iterate e ?nr)"
        using f(3) by (simp add: s' CloseFileDescriptors_def)
      show "distinct ([] :: fd list)" by simp
      show "\<forall>f\<in>set ([] :: fd list). int (next_fd s) \<le> f \<and> f < int (next_fd s')" by simp
      show "\<forall>f\<in>set no. int (next_fd s) \<le> f \<and> f < int (next_fd s')"
        using f(5) sno by (simp add: s' CloseFileDescriptors_def)
      show "\<forall>f\<in>set (map snd (iterate e ?nu) @ map snd (iterate e ?nr)).
              int (next_fd s) \<le> f \<and> f < int (next_fd s')"
        using f(5) by (simp add: s' CloseFileDescriptors_def)
      show "\<forall>f\<in>set (map snd (iterate e ?nu) @ map snd (iterate e ?nr)). f \<notin> set ([] :: fd list)"
        by simp
    qed
  next
    case False
    from instrument_function_commit [OF False d, of m pe ue] r
    have c: "tracing_fds s' = tracing_fds s @ map snd (iterate e ?nr) @ map snd (iterate e ?nu)"
      "next_fd s' = next_fd ?s1" "opened_fds (trace s') = opened_fds (trace ?s1)"
      "closed_fds (trace s') = closed_fds (trace s)"
      by auto
    have m: "mset (map snd (iterate e ?nr) @ map snd (iterate e ?nu)) =
             mset (map snd ?nu @ map snd ?nr)"
      by simp
    show ?thesis
    proof (rule extendsI [where nt = "map snd (iterate e ?nr) @ map snd (iterate e ?nu)"
          and no = no and nc = "[]"])
      show "next_fd s \<le> next_fd s'" using f(2) c(2) by simp
      show "tracing_fds s' = tracing_fds s @ map snd (iterate e ?nr) @ map snd (iterate e ?nu)"
        by (fact c(1))
      show "opened_fds (trace s') = opened_fds (trace s) @ no" using f(6) c(3) by simp
      show "closed_fds (trace s') = closed_fds (trace s) @ []" using c(4) by simp
      show "distinct (map snd (iterate e ?nr) @ map snd (iterate e ?nu))"
        using mset_eq_imp_distinct_iff [OF m] f(4) by simp
      show "\<forall>f\<in>set (map snd (iterate e ?nr) @ map snd (iterate e ?nu)).
              int (next_fd s) \<le> f \<and> f < int (next_fd s')"
        using f(5) c(2) by auto
      show "\<forall>f\<in>set no. int (next_fd s) \<le> f \<and> f < int (next_fd s')"
        using f(5) sno c(2) by simp
      show "\<forall>f\<in>set ([] :: fd list). int (next_fd s) \<le> f \<and> f < int (next_fd s')" by simp
      show "\<forall>f\<in>set ([] :: fd list). f \<notin> set (map snd (iterate e ?nr) @ map snd (iterate e ?nu))"
        by simp
    qed
  qed
qed

lemma instrument_function_pair_order:
  assumes d: "distinct cpus"
    and ok: "tracked_ok s" and po: "pair_order s"
    and fresh: "\<forall>x\<in>set (probe_opens (trace s)). \<not> probes_of fn x"
    and r: "instrument_function e cpus fn (m, pe, ue, s) = Inr (m', pe', ue', s')"
  shows "pair_order s' \<and>
         (\<forall>x\<in>set (probe_opens (trace s')). x \<in> set (probe_opens (trace s)) \<or> probes_of fn x)"
proof -
  let ?s1 = "probes_tracer e fn cpus s"
  let ?nu = "function_uprobes e fn cpus s" and ?nr = "function_uretprobes e fn cpus s"
  let ?U = "\<lambda>c. uprobes_stack_event (BinaryPath fn) (FileOffset fn) c"
  let ?R = "\<lambda>c. uretprobes_event (BinaryPath fn) (FileOffset fn) c"
  from function_probes_facts [OF d, of e fn s] obtain no np where
    f: "\<forall>f\<in>set (map snd ?nu @ map snd ?nr). int (next_fd s) \<le> f \<and> f < int (next_fd ?s1)"
       "probe_opens (trace ?s1) = probe_opens (trace s) @ np"
       "set np = (\<lambda>(c, f). (?U c, f)) ` set ?nu \<union> (\<lambda>(c, f). (?R c, f)) ` set ?nr"
    by (elim exE conjE) (rule that; assumption)
  have ext: "extends s s'" using instrument_function_extends [OF d r] .
  have old_lt: "f < int (next_fd s)" if "(src, f) \<in> set (probe_opens (trace s))" for src f
    using that ok probe_opens_opened unfolding tracked_ok_def by blast
  have tr_lt: "f < int (next_fd s)" if "f \<in> set (tracing_fds s)" for f
    using that ok unfolding tracked_ok_def by blast
  have np_cases: "(\<exists>c f. (c, f) \<in> set ?nu \<and> x = (?U c, f)) \<or>
                  (\<exists>c f. (c, f) \<in> set ?nr \<and> x = (?R c, f))" if "x \<in> set np" for x
  proof -
    from that [unfolded f(3)] show ?thesis
    proof (elim UnE imageE)
      fix y assume y: "x = (case y of (c, f) \<Rightarrow> (?U c, f))" "y \<in> set ?nu"
      obtain c f where "y = (c, f)" by (cases y)
      with y show ?thesis by auto
    next
      fix y assume y: "x = (case y of (c, f) \<Rightarrow> (?R c, f))" "y \<in> set ?nr"
      obtain c f where "y = (c, f)" by (cases y)
      with y show ?thesis by auto
    qed
  qed
  have nu_fresh: "int (next_fd s) \<le> f" if "(c, f) \<in> set ?nu" for c f
  proof -
    from that have "f \<in> set (map snd ?nu @ map snd ?nr)" by force
    with f(1) show ?thesis by blast
  qed
  have nr_fresh: "int (next_fd s) \<le> f" if "(c, f) \<in> set ?nr" for c f
  proof -
    from that have "f \<in> set (map snd ?nu @ map snd ?nr)" by force
    with f(1) show ?thesis by blast
  qed
  have np_of: "probes_of fn x" if "x \<in> set np" for x
    using np_cases [OF that] unfolding probes_of_def by blast
  have np_ge: "int (next_fd s) \<le> f" if "(src, f) \<in> set np" for src f
    using np_cases [OF that] nu_fresh nr_fresh by blast
  have np_u: "f \<in> snd ` set ?nu" if "(uprobes_stack_event p off c, f) \<in> set np" for p off c f
  proof -
    from np_cases [OF that] obtain c' where "(c', f) \<in> set ?nu" by auto
    then show ?thesis by force
  qed
  have np_r: "f \<in> snd ` set ?nr" if "(uretprobes_event p off c, f) \<in> set np" for p off c f
  proof -
    from np_cases [OF that] obtain c' where "(c', f) \<in> set ?nr" by auto
    then show ?thesis by force
  qed
  have po': "probe_opens (trace s') = probe_opens (trace s) @ np"
    and tr': "tracing_fds s' = tracing_fds s \<or>
              tracing_fds s' = tracing_fds s @ map snd (iterate e ?nr) @ map snd (iterate e ?nu)"
  proof -
    show "probe_opens (trace s') = probe_opens (trace s) @ np"
    proof (cases "fst (open_probes e fn cpus [] [] s)")
      case True
      from instrument_function_rollback [OF True, of m pe ue] r f(2)
      show ?thesis by (auto simp: CloseFileDescriptors_def)
    next
      case False
      from instrument_function_commit [OF False d, of m pe ue] r f(2)
      show ?thesis by auto
    qed
    show "tracing_fds s' = tracing_fds s \<or>
              tracing_fds s' = tracing_fds s @ map snd (iterate e ?nr) @ map snd (iterate e ?nu)"
    proof (cases "fst (open_probes e fn cpus [] [] s)")
      case True
      from function_probes_facts [OF d, of e fn s]
      have "?s1 = s\<lparr>next_fd := next_fd ?s1, trace := trace ?s1\<rparr>" by blast
      then have "tracing_fds ?s1 = tracing_fds s"
        by (metis tracer.select_convs(9) tracer.surjective tracer.update_convs(18,19))
      with instrument_function_rollback [OF True, of m pe ue] r
      show ?thesis by (auto simp: CloseFileDescriptors_def)
    next
      case False
      from instrument_function_commit [OF False d, of m pe ue] r
      show ?thesis by auto
    qed
  qed
  have "before fr fe (tracing_fds s')"
    if a: "(uprobes_stack_event p off c, fe) \<in> set (probe_opens (trace s'))"
          "(uretprobes_event p off c, fr) \<in> set (probe_opens (trace s'))"
          "fe \<in> set (tracing_fds s')" "fr \<in> set (tracing_fds s')"
    for p off c fe fr
  proof (cases "(uprobes_stack_event p off c, fe) \<in> set np")
    case True
    then have pf: "p = BinaryPath fn" "off = FileOffset fn"
      using np_of [OF True] by (auto simp: probes_of_def)
    have "(uretprobes_event p off c, fr) \<notin> set (probe_opens (trace s))"
      using fresh pf by (auto simp: probes_of_def)
    with a(2) po' have rn: "(uretprobes_event p off c, fr) \<in> set np" by simp
    have "fe \<notin> set (tracing_fds s)" using np_ge [OF True] tr_lt [of fe] by auto
    with a(3) tr' have tr2:
      "tracing_fds s' = tracing_fds s @ map snd (iterate e ?nr) @ map snd (iterate e ?nu)"
      by auto
    have "fr \<in> set (map snd (iterate e ?nr))" using np_r [OF rn] by simp
    moreover have "fe \<in> set (map snd (iterate e ?nu))" using np_u [OF True] by simp
    ultimately show ?thesis unfolding tr2 by (rule before_parts)
  next
    case False
    with a(1) po' have eo: "(uprobes_stack_event p off c, fe) \<in> set (probe_opens (trace s))"
      by simp
    then have "\<not> probes_of fn (uprobes_stack_event p off c, fe)" using fresh by blast
    then have npf: "\<not> (p = BinaryPath fn \<and> off = FileOffset fn)"
      by (auto simp: probes_of_def)
    have "(uretprobes_event p off c, fr) \<notin> set np"
      using np_of [of "(uretprobes_event p off c, fr)"] npf by (auto simp: probes_of_def)
    with a(2) po' have ro: "(uretprobes_event p off c, fr) \<in> set (probe_opens (trace s))"
      by simp
    have lt: "fe < int (next_fd s)" "fr < int (next_fd s)"
      using old_lt [OF eo] old_lt [OF ro] by simp_all
    have new_ge: "int (next_fd s) \<le> g"
      if "g \<in> set (map snd (iterate e ?nr) @ map snd (iterate e ?nu))" for g
      using that f(1) by auto
    have notnew: "g \<notin> set (map snd (iterate e ?nr) @ map snd (iterate e ?nu))"
      if "g < int (next_fd s)" for g
    proof
      assume "g \<in> set (map snd (iterate e ?nr) @ map snd (iterate e ?nu))"
      from new_ge [OF this] that show False by simp
    qed
    have split: "g \<in> set (tracing_fds s) \<or>
                 g \<in> set (map snd (iterate e ?nr) @ map snd (iterate e ?nu))"
      if "g \<in> set (tracing_fds s')" for g
      using tr' that by (elim disjE) simp_all
    have "fe \<in> set (tracing_fds s)" "fr \<in> set (tracing_fds s)"
      using split [OF a(3)] split [OF a(4)] notnew [OF lt(1)] notnew [OF lt(2)] by blast+
    with po eo ro have "before fr fe (tracing_fds s)" unfolding pair_order_def by blast
    with tr' show ?thesis by (auto intro: before_append)
  qed
  then have "pair_order s'" unfolding pair_order_def by blast
  moreover have "\<forall>x\<in>set (probe_opens (trace s')). x \<in> set (probe_opens (trace s)) \<or> probes_of fn x"
    using po' np_of by auto
  ultimately show ?thesis by blast
qed

lemma gpu_fresh_one:
  "OpenRingBufferForGpuTracepoint e cat nm c fds rbs s = (ok, fds', rbs', s') \<Longrightarrow>
     gpu_fresh fds s fds' s'"
  by (auto simp: OpenRingBufferForGpuTracepoint_eq gpu_fresh_def split: if_splits)

lemma gpu_fresh_trans:
  assumes "gpu_fresh fds s fds1 s1" and "gpu_fresh fds1 s1 fds2 s2"
  shows "gpu_fresh fds s fds2 s2"
proof -
  have "f \<in> set fds \<or> (int (next_fd s) \<le> f \<and> f < int (next_fd s2))" if "f \<in> set fds2" for f
  proof -
    from that assms(2) have "f \<in> set fds1 \<or> (int (next_fd s1) \<le> f \<and> f < int (next_fd s2))"
      unfolding gpu_fresh_def by blast
    then show ?thesis
    proof
      assume "f \<in> set fds1"
      with assms(1) have "f \<in> set fds \<or> (int (next_fd s) \<le> f \<and> f < int (next_fd s1))"
        unfolding gpu_fresh_def by blast
      moreover have "next_fd s1 \<le> next_fd s2" using assms(2) unfolding gpu_fresh_def by blast
      ultimately show ?thesis by auto
    next
      assume "int (next_fd s1) \<le> f \<and> f < int (next_fd s2)"
      moreover have "next_fd s \<le> next_fd s1" using assms(1) unfolding gpu_fresh_def by blast
      ultimately show ?thesis by auto
    qed
  qed
  moreover have "next_fd s \<le> next_fd s2" "probe_opens (trace s2) = probe_opens (trace s)"
    using assms unfolding gpu_fresh_def by auto
  ultimately show ?thesis unfolding gpu_fresh_def by blast
qed

lemma gpu_fresh_close:
  "gpu_fresh fds s fds' s' \<Longrightarrow> gpu_fresh fds s fds' (CloseFileDescriptors x s')"
  by (simp add: gpu_fresh_def CloseFileDescriptors_def)

lemma open_gpu_cpus_fresh:
  "open_gpu_cpus e cpus fds rbs s = (ok, fds', rbs', s') \<Longrightarrow> gpu_fresh fds s fds' s'"
proof (induction cpus arbitrary: fds rbs s)
  case Nil
  then show ?case by (simp add: gpu_fresh_def)
next
  case (Cons c cpus)
  obtain ok1 fds1 rbs1 s1 where
    o1: "OpenRingBufferForGpuTracepoint e ''amdgpu'' ''amdgpu_cs_ioctl'' c fds rbs s =
           (ok1, fds1, rbs1, s1)"
    by (cases "OpenRingBufferForGpuTracepoint e ''amdgpu'' ''amdgpu_cs_ioctl'' c fds rbs s")
  note g1 = gpu_fresh_one [OF o1]
  show ?case
  proof (cases ok1)
    case False
    with Cons.prems o1 have "fds' = fds1" "s' = CloseFileDescriptors fds1 s1" by auto
    with g1 show ?thesis by (simp add: gpu_fresh_close)
  next
    case ok1: True
    obtain ok2 fds2 rbs2 s2 where
      o2: "OpenRingBufferForGpuTracepoint e ''amdgpu'' ''amdgpu_sched_run_job'' c fds1 rbs1 s1 =
             (ok2, fds2, rbs2, s2)"
      by (cases "OpenRingBufferForGpuTracepoint e ''amdgpu'' ''amdgpu_sched_run_job'' c fds1 rbs1 s1")
    note g2 = gpu_fresh_trans [OF g1 gpu_fresh_one [OF o2]]
    show ?thesis
    proof (cases ok2)
      case False
      with Cons.prems o1 ok1 o2 have "fds' = fds2" "s' = CloseFileDescriptors fds2 s2"
        by auto
      with g2 show ?thesis by (simp add: gpu_fresh_close)
    next
      case ok2: True
      obtain ok3 fds3 rbs3 s3 where
        o3: "OpenRingBufferForGpuTracepoint e ''dma_fence'' ''dma_fence_signaled'' c fds2 rbs2 s2 =
               (ok3, fds3, rbs3, s3)"
        by (cases "OpenRingBufferForGpuTracepoint e ''dma_fence'' ''dma_fence_signaled'' c fds2 rbs2 s2")
      note g3 = gpu_fresh_trans [OF g2 gpu_fresh_one [OF o3]]
      show ?thesis
      proof (cases ok3)
        case False
        with Cons.prems o1 ok1 o2 ok2 o3 have "fds' = fds3" "s' = CloseFileDescriptors fds3 s3"
          by auto
        with g3 show ?thesis by (simp add: gpu_fresh_close)
      next
        case True
        with Cons.prems o1 ok1 o2 ok2 o3
        have "open_gpu_cpus e cpus fds3 rbs3 s3 = (ok, fds', rbs', s')" by simp
        from gpu_fresh_trans [OF g3 Cons.IH [OF this]] show ?thesis .
      qed
    qed
  qed
qed

lemma open_per_cpu_Cons:
  "open_per_cpu e src (c # cpus) (b, s) =
     (if open_succeeds e (src c)
      then (if mmap_succeeds e (int (next_fd s))
            then open_per_cpu e src cpus
                   (b, s\<lparr>next_fd := Suc (next_fd s),
                          trace := trace s @ [Open (src c) (int (next_fd s)), Mmap (int (next_fd s))],
                          tracing_fds := tracing_fds s @ [int (next_fd s)],
                          ring_buffers := ring_buffers s @
                            [\<lparr>GetFileDescriptor = int (next_fd s), IsOpen = True, tail = 0\<rparr>]\<rparr>)
            else open_per_cpu e src cpus
                   (True, s\<lparr>next_fd := Suc (next_fd s),
                             trace := trace s @ [Open (src c) (int (next_fd s))]\<rparr>))
      else open_per_cpu e src cpus (True, s))"
  by (simp add: perf_event_open_def new_PerfEventRingBuffer_def)

lemma phase_refl: "phase s s"
  by (simp add: phase_def extends_refl)

lemma phase_trans: "phase s s1 \<Longrightarrow> phase s1 s2 \<Longrightarrow> phase s s2"
  unfolding phase_def using extends_trans by auto

lemma open_per_cpu_phase:
  assumes np: "\<And>c f. probe_opens [Open (src c) f] = []"
  shows "phase s (snd (open_per_cpu e src cpus (b, s)))"
proof (induction cpus arbitrary: b s)
  case Nil
  show ?case by (simp add: phase_refl)
next
  case (Cons c cpus)
  let ?n = "int (next_fd s)"
  let ?s1 = "s\<lparr>next_fd := Suc (next_fd s),
               trace := trace s @ [Open (src c) ?n, Mmap ?n],
               tracing_fds := tracing_fds s @ [?n],
               ring_buffers := ring_buffers s @
                 [\<lparr>GetFileDescriptor = ?n, IsOpen = True, tail = 0\<rparr>]\<rparr>"
  let ?s2 = "s\<lparr>next_fd := Suc (next_fd s), trace := trace s @ [Open (src c) ?n]\<rparr>"
  have e1: "extends s ?s1"
    by (rule extendsI [where nt = "[?n]" and no = "[?n]" and nc = "[]"]) simp_all
  have e2: "extends s ?s2"
    by (rule extendsI [where nt = "[]" and no = "[?n]" and nc = "[]"]) simp_all
  have np2: "probe_opens [Open (src c) ?n, Mmap ?n] = []"
    using probe_opens_append [of "[Open (src c) ?n]" "[Mmap ?n]"] np [of c ?n] by simp
  have p1: "phase s ?s1" using e1 np2 by (simp add: phase_def)
  have p2: "phase s ?s2" using e2 np [of c ?n] by (simp add: phase_def)
  consider (a) "open_succeeds e (src c)" "mmap_succeeds e ?n"
    | (b) "open_succeeds e (src c)" "\<not> mmap_succeeds e ?n"
    | (c) "\<not> open_succeeds e (src c)"
    by blast
  then show ?case
  proof cases
    case a
    then have "open_per_cpu e src (c # cpus) (b, s) = open_per_cpu e src cpus (b, ?s1)"
      by (simp only: open_per_cpu_Cons if_True)
    with phase_trans [OF p1 Cons.IH [of ?s1 b]] show ?thesis by simp
  next
    case b
    then have "open_per_cpu e src (c # cpus) (b, s) = open_per_cpu e src cpus (True, ?s2)"
      by (simp only: open_per_cpu_Cons if_True if_False)
    with phase_trans [OF p2 Cons.IH [of ?s2 True]] show ?thesis by simp
  next
    case c
    then have "open_per_cpu e src (c # cpus) (b, s) = open_per_cpu e src cpus (True, s)"
      by (simp only: open_per_cpu_Cons if_False)
    with Cons.IH [of s True] show ?thesis by simp
  qed
qed

lemma OpenGpuTracepoints_phase: "phase s (snd (OpenGpuTracepoints e cpus s))"
proof -
  obtain ok fds rbs s1 where r: "open_gpu_cpus e cpus [] [] s = (ok, fds, rbs, s1)"
    by (cases "open_gpu_cpus e cpus [] [] s")
  from open_gpu_cpus_post [of e cpus "[]" "[]" s, unfolded r gpu_post_def prod.case]
  obtain new where
    p: "s1 = s\<lparr>next_fd := next_fd s1, trace := trace s1\<rparr>"
       "fds = [] @ new"
       "opened_fds (trace s1) = opened_fds (trace s) @ new"
       "closed_fds (trace s1) = closed_fds (trace s) @ (if ok then [] else fds)"
       "ok \<longrightarrow> new = map int [next_fd s..<next_fd s + 3 * length cpus] \<and>
                 (\<exists>nrb. rbs = [] @ nrb \<and> map GetFileDescriptor nrb = new \<and> list_all IsOpen nrb)"
    by (elim exE conjE) (rule that; assumption)
  from open_gpu_cpus_fresh [OF r] have
    g: "next_fd s \<le> next_fd s1" "probe_opens (trace s1) = probe_opens (trace s)"
       "\<forall>f\<in>set fds. int (next_fd s) \<le> f \<and> f < int (next_fd s1)"
    unfolding gpu_fresh_def by auto
  have fr: "tracing_fds s1 = tracing_fds s" "pid s1 = pid s"
    "instrumented_functions s1 = instrumented_functions s"
    by (subst p(1), simp)+
  have new: "fds = new" using p(2) by simp
  show ?thesis
  proof (cases ok)
    case True
    then have s': "snd (OpenGpuTracepoints e cpus s) =
        s1\<lparr>gpu_tracing_fds := gpu_tracing_fds s1 \<union> set fds,
            tracing_fds := tracing_fds s1 @ fds, ring_buffers := ring_buffers s1 @ rbs\<rparr>"
      using r by (simp add: OpenGpuTracepoints_def)
    have d: "distinct fds" using p(5) True new by (simp add: distinct_map)
    have "extends s (snd (OpenGpuTracepoints e cpus s))"
      unfolding s'
      apply (rule extendsI [where nt = fds and no = fds and nc = "[]"])
      using g p(3,4) fr d True new by simp_all
    then show ?thesis unfolding phase_def s' using g(2) fr by simp
  next
    case False
    then have s': "snd (OpenGpuTracepoints e cpus s) = drop_ring_buffers rbs s1"
      using r by (simp add: OpenGpuTracepoints_def)
    have "extends s (snd (OpenGpuTracepoints e cpus s))"
      unfolding s'
      apply (rule extendsI [where nt = "[]" and no = fds and nc = fds])
      using g p(3,4) fr False new by (simp_all add: drop_ring_buffers_def)
    then show ?thesis unfolding phase_def s' using g(2) fr by (simp add: drop_ring_buffers_def)
  qed
qed

lemma InitGpuTracepointEventProcessor_phase:
  "phase s (snd (InitGpuTracepointEventProcessor e s))"
  by (simp add: InitGpuTracepointEventProcessor_def Let_def phase_def extends_def)

lemma probes_of_key: "probes_of fn x \<Longrightarrow> probes_of fn' x \<Longrightarrow> fn_key fn = fn_key fn'"
  by (auto simp: probes_of_def fn_key_def)

lemma pair_order_phase:
  assumes ok: "tracked_ok s" and po: "pair_order s" and ph: "phase s s'"
  shows "pair_order s'"
proof -
  from ph have ext: "extends s s'" and same: "probe_opens (trace s') = probe_opens (trace s)"
    unfolding phase_def by auto
  from ext obtain nt where
    nt: "tracing_fds s' = tracing_fds s @ nt"
        "\<forall>f\<in>set nt. int (next_fd s) \<le> f \<and> f < int (next_fd s')"
    unfolding extends_def by blast
  have old_lt: "f < int (next_fd s)" if "(src, f) \<in> set (probe_opens (trace s))" for src f
    using that ok probe_opens_opened unfolding tracked_ok_def by blast
  have older: "f \<in> set (tracing_fds s)"
    if "f \<in> set (tracing_fds s')" and "f < int (next_fd s)" for f
  proof -
    from that(1) nt(1) have "f \<in> set (tracing_fds s) \<or> f \<in> set nt" by simp
    moreover have "f \<notin> set nt" using nt(2) that(2) by auto
    ultimately show ?thesis by blast
  qed
  have "before fr fe (tracing_fds s')"
    if a: "(uprobes_stack_event p off c, fe) \<in> set (probe_opens (trace s'))"
          "(uretprobes_event p off c, fr) \<in> set (probe_opens (trace s'))"
          "fe \<in> set (tracing_fds s')" "fr \<in> set (tracing_fds s')"
    for p off c fe fr
  proof -
    from a(1,2) same have o: "(uprobes_stack_event p off c, fe) \<in> set (probe_opens (trace s))"
      "(uretprobes_event p off c, fr) \<in> set (probe_opens (trace s))" by simp_all
    have "fe \<in> set (tracing_fds s)" "fr \<in> set (tracing_fds s)"
      using older [OF a(3) old_lt [OF o(1)]] older [OF a(4) old_lt [OF o(2)]] by simp_all
    with po o have "before fr fe (tracing_fds s)" unfolding pair_order_def by blast
    then show ?thesis unfolding nt(1) by (rule before_append)
  qed
  then show ?thesis unfolding pair_order_def by blast
qed

lemma tracked_ok_phase: "tracked_ok s \<Longrightarrow> phase s s' \<Longrightarrow> tracked_ok s'"
  unfolding phase_def using tracked_ok_extends by blast

lemma instrument_function_total:
  assumes "distinct cpus"
  shows "\<exists>m' pe' ue' s'. instrument_function e cpus fn (m, pe, ue, s) = Inr (m', pe', ue', s') \<and>
           pid s' = pid s"
proof (cases "fst (open_probes e fn cpus [] [] s)")
  case True
  from function_probes_facts [OF assms, of e fn s]
  have "probes_tracer e fn cpus s =
          s\<lparr>next_fd := next_fd (probes_tracer e fn cpus s),
             trace := trace (probes_tracer e fn cpus s)\<rparr>" by blast
  then have "pid (probes_tracer e fn cpus s) = pid s"
    by (metis tracer.select_convs(2) tracer.surjective tracer.update_convs(18,19))
  with instrument_function_rollback [OF True, of m pe ue] show ?thesis
    by (auto simp: CloseFileDescriptors_def)
next
  case False
  from instrument_function_commit [OF False assms, of m pe ue] show ?thesis by blast
qed

lemma instrument_functions_inv:
  assumes d: "distinct cpus"
  shows "tracked_ok s \<Longrightarrow> pair_order s \<Longrightarrow> distinct (map fn_key fns) \<Longrightarrow>
     (\<forall>fn\<in>set fns. \<forall>x\<in>set (probe_opens (trace s)). \<not> probes_of fn x) \<Longrightarrow>
     \<exists>m' pe' ue' s'. instrument_functions e cpus fns (m, pe, ue, s) = Inr (m', pe', ue', s') \<and>
        extends s s' \<and> pair_order s' \<and> pid s' = pid s"
proof (induction fns arbitrary: m pe ue s)
  case Nil
  then show ?case by (simp add: extends_refl)
next
  case (Cons fn fns)
  from instrument_function_total [OF d, of e fn m pe ue s] obtain m1 pe1 ue1 s1 where
    r: "instrument_function e cpus fn (m, pe, ue, s) = Inr (m1, pe1, ue1, s1)" and
    p1: "pid s1 = pid s"
    by blast
  have fresh: "\<forall>x\<in>set (probe_opens (trace s)). \<not> probes_of fn x"
    using Cons.prems(4) by simp
  from instrument_function_extends [OF d r] have e1: "extends s s1" .
  from instrument_function_pair_order [OF d Cons.prems(1,2) fresh r] have
    po1: "pair_order s1" and
    grow: "\<forall>x\<in>set (probe_opens (trace s1)). x \<in> set (probe_opens (trace s)) \<or> probes_of fn x"
    by blast+
  have ok1: "tracked_ok s1" using tracked_ok_extends [OF Cons.prems(1) e1] .
  have dk: "distinct (map fn_key fns)" "fn_key fn \<notin> fn_key ` set fns"
    using Cons.prems(3) by simp_all
  have fresh1: "\<forall>fn'\<in>set fns. \<forall>x\<in>set (probe_opens (trace s1)). \<not> probes_of fn' x"
  proof (intro ballI notI)
    fix fn' x assume a: "fn' \<in> set fns" "x \<in> set (probe_opens (trace s1))" "probes_of fn' x"
    from grow a(2) have "x \<in> set (probe_opens (trace s)) \<or> probes_of fn x" by blast
    then show False
    proof
      assume "x \<in> set (probe_opens (trace s))"
      with Cons.prems(4) a(1,3) show False by simp
    next
      assume "probes_of fn x"
      from probes_of_key [OF this a(3)] a(1) dk(2) show False by force
    qed
  qed
  from Cons.IH [OF ok1 po1 dk(1) fresh1, of m1 pe1 ue1] obtain m' pe' ue' s' where
    r2: "instrument_functions e cpus fns (m1, pe1, ue1, s1) = Inr (m', pe', ue', s')"
        "extends s1 s'" "pair_order s'" "pid s' = pid s1"
    by blast
  have "instrument_functions e cpus (fn # fns) (m, pe, ue, s) = Inr (m', pe', ue', s')"
    using r r2(1) by simp
  with extends_trans [OF e1 r2(2)] r2(3,4) p1 show ?case by simp
qed

lemma instrument_functions_extends:
  assumes d: "distinct cpus"
  shows "\<exists>m' pe' ue' s'. instrument_functions e cpus fns (m, pe, ue, s) = Inr (m', pe', ue', s') \<and>
           extends s s' \<and> pid s' = pid s"
proof (induction fns arbitrary: m pe ue s)
  case Nil
  show ?case by (simp add: extends_refl)
next
  case (Cons fn fns)
  from instrument_function_total [OF d, of e fn m pe ue s] obtain m1 pe1 ue1 s1 where
    r: "instrument_function e cpus fn (m, pe, ue, s) = Inr (m1, pe1, ue1, s1)" and
    p1: "pid s1 = pid s"
    by blast
  from instrument_function_extends [OF d r] have e1: "extends s s1" .
  from Cons.IH [of m1 pe1 ue1 s1] obtain m' pe' ue' s' where
    r2: "instrument_functions e cpus fns (m1, pe1, ue1, s1) = Inr (m', pe', ue', s')"
        "extends s1 s'" "pid s' = pid s1"
    by blast
  have "instrument_functions e cpus (fn # fns) (m, pe, ue, s) = Inr (m', pe', ue', s')"
    using r r2(1) by simp
  with extends_trans [OF e1 r2(2)] r2(3) p1 show ?case by simp
qed

lemma distinct_all_cpus: "distinct (all_cpus e)"
  by (simp add: all_cpus_def distinct_map)

lemma open_sources_inv:
  assumes t0: "trace s0 = []"
    and dc: "distinct (GetCpusetCpus e (pid s0))"
  shows "\<exists>a b c s. open_sources e s0 = Inr (a, b, c, s) \<and> tracked_ok s \<and>
           (distinct (map fn_key (instrumented_functions s0)) \<longrightarrow> pair_order s)"
proof -
  define s where "s = Reset s0"
  define st1 where "st1 = (if trace_context_switches s
                 then open_per_cpu e context_switch_event (all_cpus e) (False, s)
                 else (False, s))"
  define s2 where "s2 = snd (InitGpuTracepointEventProcessor e (snd st1))"
  define r3 where "r3 = (if trace_instrumented_functions s2
               then instrument_functions e (cpuset_cpus e s2) (instrumented_functions s2)
                      ([], fst st1, False, s2)
               else Inr ([], fst st1, False, s2))"
  have ok0: "tracked_ok s" by (simp add: s_def tracked_ok_def Reset_def t0)
  have po0: "pair_order s" by (simp add: s_def pair_order_def Reset_def t0)
  have pr0: "probe_opens (trace s) = []" by (simp add: s_def Reset_def t0)
  have cf0: "pid s = pid s0" "instrumented_functions s = instrumented_functions s0"
    by (simp_all add: s_def Reset_def)
  have ph1: "phase s (snd st1)"
    unfolding st1_def using open_per_cpu_phase [of context_switch_event s e "all_cpus e" False]
    by (simp add: phase_refl)
  have ph2: "phase s s2"
    unfolding s2_def using phase_trans [OF ph1 InitGpuTracepointEventProcessor_phase] .
  have ok2: "tracked_ok s2" using tracked_ok_phase [OF ok0 ph2] .
  have po2: "pair_order s2" using pair_order_phase [OF ok0 po0 ph2] .
  have pr2: "probe_opens (trace s2) = []" using ph2 pr0 by (simp add: phase_def)
  have cf2: "pid s2 = pid s0" "instrumented_functions s2 = instrumented_functions s0"
    using ph2 cf0 by (simp_all add: phase_def)
  have dcs: "distinct (cpuset_cpus e s')" if "pid s' = pid s0" for s'
    using that dc by (simp add: cpuset_cpus_def distinct_all_cpus)
  let ?dk = "distinct (map fn_key (instrumented_functions s0))"
  have "\<exists>m pe ue s3. r3 = Inr (m, pe, ue, s3) \<and> tracked_ok s3 \<and> (?dk \<longrightarrow> pair_order s3) \<and>
          pid s3 = pid s0"
  proof (cases "trace_instrumented_functions s2")
    case True
    from instrument_functions_extends [OF dcs [OF cf2(1)], of e "instrumented_functions s2"
        "[]" "fst st1" False s2]
    obtain m pe ue s3 where
      i: "instrument_functions e (cpuset_cpus e s2) (instrumented_functions s2)
            ([], fst st1, False, s2) = Inr (m, pe, ue, s3)"
         "extends s2 s3" "pid s3 = pid s2"
      by blast
    have "pair_order s3" if dk: ?dk
    proof -
      have fr: "\<forall>fn\<in>set (instrumented_functions s2).
                  \<forall>x\<in>set (probe_opens (trace s2)). \<not> probes_of fn x"
        using pr2 by simp
      have dk2: "distinct (map fn_key (instrumented_functions s2))" using dk cf2(2) by simp
      from instrument_functions_inv [OF dcs [OF cf2(1)] ok2 po2 dk2 fr, of e "[]" "fst st1" False]
        i(1)
      show ?thesis by auto
    qed
    with True i ok2 cf2(1) show ?thesis
      unfolding r3_def using tracked_ok_extends by auto
  next
    case False
    with ok2 po2 cf2(1) show ?thesis unfolding r3_def by auto
  qed
  then obtain m pe ue s3 where
    r3: "r3 = Inr (m, pe, ue, s3)" and ok3: "tracked_ok s3" and po3: "?dk \<longrightarrow> pair_order s3"
    and cf3: "pid s3 = pid s0"
    by blast
  define st4 where "st4 = open_per_cpu e mmap_task_event (cpuset_cpus e s3) (pe, s3)"
  define st5 where "st5 = (if trace_callstacks (snd st4)
                         then open_per_cpu e (sample_event (sampling_period_ns (snd st4)))
                                (cpuset_cpus e (snd st4)) st4
                         else st4)"
  define st6 where "st6 = (if trace_gpu_driver_events (snd st5)
                         then (case OpenGpuTracepoints e (all_cpus e) (snd st5) of
                                 (ok, s6) \<Rightarrow> (\<not> ok, s6))
                         else (False, snd st5))"
  have ph4: "phase s3 (snd st4)"
    unfolding st4_def using open_per_cpu_phase [of mmap_task_event s3 e _ pe] by simp
  have ph5: "phase (snd st4) (snd st5)"
  proof (cases "trace_callstacks (snd st4)")
    case True
    have "phase (snd st4) (snd (open_per_cpu e (sample_event (sampling_period_ns (snd st4)))
                                (cpuset_cpus e (snd st4)) (fst st4, snd st4)))"
      by (rule open_per_cpu_phase) simp
    with True show ?thesis by (simp add: st5_def)
  next
    case False
    then show ?thesis by (simp add: st5_def phase_refl)
  qed
  have ph6: "phase (snd st5) (snd st6)"
  proof (cases "trace_gpu_driver_events (snd st5)")
    case True
    then have "snd st6 = snd (OpenGpuTracepoints e (all_cpus e) (snd st5))"
      by (simp add: st6_def case_prod_beta)
    then show ?thesis by (simp add: OpenGpuTracepoints_phase)
  next
    case False
    then show ?thesis by (simp add: st6_def phase_refl)
  qed
  note ph = phase_trans [OF phase_trans [OF ph4 ph5] ph6]
  have ok6: "tracked_ok (snd st6)" using tracked_ok_phase [OF ok3 ph] .
  have po6: "?dk \<longrightarrow> pair_order (snd st6)" using pair_order_phase [OF ok3 _ ph] po3 by blast
  have "open_sources e s0 = Inr (fst st5, ue, fst st6, snd st6)"
    unfolding open_sources_def Let_def
    unfolding s_def [symmetric] st1_def [symmetric] s2_def [symmetric] r3_def [symmetric]
    unfolding r3 sum.case prod.case
    unfolding st4_def [symmetric] st5_def [symmetric] st6_def [symmetric]
    by (rule refl)
  with ok6 po6 show ?thesis by blast
qed

lemma record_stream_ids_dom:
  "dom (record_stream_ids e fn fds m) = dom m \<union> perf_event_get_id e ` set fds"
  by (induction fds arbitrary: m) auto

subsection \<open>The probes of a function are committed together or not at all\<close>

text \<open>
  C3. For a cpuset without repetitions and any instrumented function: when the entry
  or the return probe fails to open on some CPU, the function's iteration returns with
  \<open>perf_event_open_errors\<close> and \<open>uprobes_event_open_errors\<close> set, the descriptors it
  closed are exactly the descriptors it opened (each once), and the tracer is unchanged
  but for the kernel's descriptor counter and the log, so that none of the function's
  descriptors is in \<open>tracing_fds\<close> or in the stream-id map; the loop goes on with the
  next function. When every open succeeds, nothing is closed, the descriptors opened
  are exactly those appended to \<open>tracing_fds\<close> (return probes first), and for each
  CPU both the entry and the return probe are committed and their stream ids are in
  the stream-id map.
\<close>

theorem instrument_function_all_or_nothing:
  assumes "distinct cpus"
  shows "if \<exists>c\<in>set cpus.
              \<not> open_succeeds e (uprobes_stack_event (BinaryPath fn) (FileOffset fn) c) \<or>
              \<not> open_succeeds e (uretprobes_event (BinaryPath fn) (FileOffset fn) c)
         then \<exists>s'. instrument_function e cpus fn (m, pe, ue, s) = Inr (m, True, True, s') \<and>
                s' = s\<lparr>next_fd := next_fd s', trace := trace s'\<rparr> \<and>
                (\<exists>no nc. opened_fds (trace s') = opened_fds (trace s) @ no \<and>
                         closed_fds (trace s') = closed_fds (trace s) @ nc \<and> mset nc = mset no) \<and>
                instrument_functions e cpus (fn # fns) (m, pe, ue, s) =
                  instrument_functions e cpus fns (m, True, True, s')
         else \<exists>m' s' rets entries no.
                instrument_function e cpus fn (m, pe, ue, s) = Inr (m', pe, ue, s') \<and>
                closed_fds (trace s') = closed_fds (trace s) \<and>
                opened_fds (trace s') = opened_fds (trace s) @ no \<and>
                tracing_fds s' = tracing_fds s @ rets @ entries \<and>
                mset (rets @ entries) = mset no \<and>
                (\<forall>c\<in>set cpus. \<exists>fe fr.
                   Open (uprobes_stack_event (BinaryPath fn) (FileOffset fn) c) fe \<in> set (trace s') \<and>
                   Open (uretprobes_event (BinaryPath fn) (FileOffset fn) c) fr \<in> set (trace s') \<and>
                   fe \<in> set entries \<and> fr \<in> set rets \<and>
                   perf_event_get_id e fe \<in> dom (uprobes_ids_to_function s') \<and>
                   perf_event_get_id e fr \<in> dom (uprobes_ids_to_function s'))"
proof -
  let ?s1 = "probes_tracer e fn cpus s"
  let ?nu = "function_uprobes e fn cpus s" and ?nr = "function_uretprobes e fn cpus s"
  let ?U = "\<lambda>c. uprobes_stack_event (BinaryPath fn) (FileOffset fn) c"
  let ?R = "\<lambda>c. uretprobes_event (BinaryPath fn) (FileOffset fn) c"
  let ?err = "\<exists>c\<in>set cpus. \<not> open_succeeds e (?U c) \<or> \<not> open_succeeds e (?R c)"
  from function_probes_facts [OF assms, of e fn s] obtain no np where
    f: "?s1 = s\<lparr>next_fd := next_fd ?s1, trace := trace ?s1\<rparr>"
       "fst (open_probes e fn cpus [] [] s) = ?err"
       "closed_fds (trace ?s1) = closed_fds (trace s)"
       "\<not> fst (open_probes e fn cpus [] [] s) \<longrightarrow> map fst ?nu = cpus \<and> map fst ?nr = cpus"
       "opened_fds (trace ?s1) = opened_fds (trace s) @ no"
       "mset no = mset (map snd ?nu @ map snd ?nr)"
       "probe_opens (trace ?s1) = probe_opens (trace s) @ np"
       "set np = (\<lambda>(c, f). (?U c, f)) ` set ?nu \<union> (\<lambda>(c, f). (?R c, f)) ` set ?nr"
    by (elim exE conjE) (rule that; assumption)
  show ?thesis
  proof (cases ?err)
    case True
    then have err: "fst (open_probes e fn cpus [] [] s)" using f(2) by simp
    let ?s' = "CloseFileDescriptors (map snd (iterate e ?nr))
                 (CloseFileDescriptors (map snd (iterate e ?nu)) ?s1)"
    note r = instrument_function_rollback [OF err, of m pe ue]
    have a: "?s' = s\<lparr>next_fd := next_fd ?s', trace := trace ?s'\<rparr>"
      by (subst f(1)) (simp add: CloseFileDescriptors_def)
    have b: "opened_fds (trace ?s') = opened_fds (trace s) @ no"
      using f(5) by (simp add: CloseFileDescriptors_def)
    have c: "closed_fds (trace ?s') =
               closed_fds (trace s) @ (map snd (iterate e ?nu) @ map snd (iterate e ?nr))"
      using f(3) by (simp add: CloseFileDescriptors_def)
    have d: "mset (map snd (iterate e ?nu) @ map snd (iterate e ?nr)) = mset no"
      using f(6) by simp
    have g: "instrument_functions e cpus (fn # fns) (m, pe, ue, s) =
               instrument_functions e cpus fns (m, True, True, ?s')"
      using r by simp
    from r a b c d g have
      "\<exists>s'. instrument_function e cpus fn (m, pe, ue, s) = Inr (m, True, True, s') \<and>
                s' = s\<lparr>next_fd := next_fd s', trace := trace s'\<rparr> \<and>
                (\<exists>no nc. opened_fds (trace s') = opened_fds (trace s) @ no \<and>
                         closed_fds (trace s') = closed_fds (trace s) @ nc \<and> mset nc = mset no) \<and>
                instrument_functions e cpus (fn # fns) (m, pe, ue, s) =
                  instrument_functions e cpus fns (m, True, True, s')"
      by blast
    with True show ?thesis by (simp only: if_True)
  next
    case False
    then have err: "\<not> fst (open_probes e fn cpus [] [] s)" using f(2) by simp
    let ?rets = "map snd (iterate e ?nr)" and ?entries = "map snd (iterate e ?nu)"
    from instrument_function_commit [OF err assms, of m pe ue] obtain m' s' where
      c: "instrument_function e cpus fn (m, pe, ue, s) = Inr (m', pe, ue, s')"
         "tracing_fds s' = tracing_fds s @ ?rets @ ?entries"
         "opened_fds (trace s') = opened_fds (trace ?s1)"
         "closed_fds (trace s') = closed_fds (trace s)"
         "probe_opens (trace s') = probe_opens (trace ?s1)"
         "uprobes_ids_to_function s' =
            record_stream_ids e fn ?rets
              (record_stream_ids e fn ?entries (uprobes_ids_to_function s))"
      by blast
    have keys: "map fst ?nu = cpus" "map fst ?nr = cpus" using f(4) err by simp_all
    have pairs: "\<exists>fe fr.
                   Open (?U c) fe \<in> set (trace s') \<and> Open (?R c) fr \<in> set (trace s') \<and>
                   fe \<in> set ?entries \<and> fr \<in> set ?rets \<and>
                   perf_event_get_id e fe \<in> dom (uprobes_ids_to_function s') \<and>
                   perf_event_get_id e fr \<in> dom (uprobes_ids_to_function s')"
      if "c \<in> set cpus" for c
    proof -
      from that keys(1) have "c \<in> fst ` set ?nu" by (metis list.set_map)
      then obtain fe where fe: "(c, fe) \<in> set ?nu" by force
      from that keys(2) have "c \<in> fst ` set ?nr" by (metis list.set_map)
      then obtain fr where fr: "(c, fr) \<in> set ?nr" by force
      have "(?U c, fe) \<in> set np" unfolding f(8) using fe by force
      then have "(?U c, fe) \<in> set (probe_opens (trace s'))" using c(5) f(7) by simp
      then have 1: "Open (?U c) fe \<in> set (trace s')" by (simp add: probe_opens_iff)
      have "(?R c, fr) \<in> set np" unfolding f(8) using fr by force
      then have "(?R c, fr) \<in> set (probe_opens (trace s'))" using c(5) f(7) by simp
      then have 2: "Open (?R c) fr \<in> set (trace s')" by (simp add: probe_opens_iff)
      have 3: "fe \<in> set ?entries" using fe by force
      have 4: "fr \<in> set ?rets" using fr by force
      have 5: "perf_event_get_id e fe \<in> dom (uprobes_ids_to_function s')"
        unfolding c(6) record_stream_ids_dom using 3 by blast
      have 6: "perf_event_get_id e fr \<in> dom (uprobes_ids_to_function s')"
        unfolding c(6) record_stream_ids_dom using 4 by blast
      from 1 2 3 4 5 6 show ?thesis by blast
    qed
    have o: "opened_fds (trace s') = opened_fds (trace s) @ no" using c(3) f(5) by simp
    have ms: "mset (?rets @ ?entries) = mset no" using f(6) by simp
    from c(1,2,4) o ms pairs have
      "\<exists>m' s' rets entries no.
                instrument_function e cpus fn (m, pe, ue, s) = Inr (m', pe, ue, s') \<and>
                closed_fds (trace s') = closed_fds (trace s) \<and>
                opened_fds (trace s') = opened_fds (trace s) @ no \<and>
                tracing_fds s' = tracing_fds s @ rets @ entries \<and>
                mset (rets @ entries) = mset no \<and>
                (\<forall>c\<in>set cpus. \<exists>fe fr.
                   Open (?U c) fe \<in> set (trace s') \<and> Open (?R c) fr \<in> set (trace s') \<and>
                   fe \<in> set entries \<and> fr \<in> set rets \<and>
                   perf_event_get_id e fe \<in> dom (uprobes_ids_to_function s') \<and>
                   perf_event_get_id e fr \<in> dom (uprobes_ids_to_function s'))"
      by blast
    with False show ?thesis by (simp only: if_False)
  qed
qed

text \<open>Two CPUs: the return probe fails on CPU 1 (descriptors 3, 4 and 5 are opened
  and closed), and a run where all four probes open.\<close>

theorem instrument_function_all_or_nothing_witness:
  "distinct [0, 1 :: int] \<and>
   (case instrument_function failing_probe_env [0, 1] traced_function ([], False, False, idle_tracer) of
      Inl err \<Rightarrow> False
    | Inr (m, perf_event_open_errors, uprobes_event_open_errors, s') \<Rightarrow>
        uprobes_event_open_errors \<and> tracing_fds s' = [] \<and>
        opened_fds (trace s') = [3, 4, 5] \<and> closed_fds (trace s') = [3, 5, 4] \<and>
        uprobes_ids_to_function s' = Map.empty) \<and>
   (case instrument_function quiet_env [0, 1] traced_function ([], False, False, idle_tracer) of
      Inl err \<Rightarrow> False
    | Inr (m, perf_event_open_errors, uprobes_event_open_errors, s') \<Rightarrow>
        \<not> uprobes_event_open_errors \<and> tracing_fds s' = [4, 6, 3, 5] \<and>
        opened_fds (trace s') = [3, 4, 5, 6] \<and> closed_fds (trace s') = [])"
proof -
  have d: "distinct [0, 1 :: int]" by simp
  note a = instrument_function_all_or_nothing [OF d, where e = failing_probe_env
      and fn = traced_function and m = "[]" and pe = False and ue = False and s = idle_tracer
      and fns = "[]"]
  note b = instrument_function_all_or_nothing [OF d, where e = quiet_env
      and fn = traced_function and m = "[]" and pe = False and ue = False and s = idle_tracer
      and fns = "[]"]
  have ev: "(case instrument_function failing_probe_env [0, 1] traced_function ([], False, False, idle_tracer) of
      Inl err \<Rightarrow> False
    | Inr (m, perf_event_open_errors, uprobes_event_open_errors, s') \<Rightarrow>
        uprobes_event_open_errors \<and> tracing_fds s' = [] \<and>
        opened_fds (trace s') = [3, 4, 5] \<and> closed_fds (trace s') = [3, 5, 4] \<and>
        uprobes_ids_to_function s' = Map.empty)"
    "(case instrument_function quiet_env [0, 1] traced_function ([], False, False, idle_tracer) of
      Inl err \<Rightarrow> False
    | Inr (m, perf_event_open_errors, uprobes_event_open_errors, s') \<Rightarrow>
        \<not> uprobes_event_open_errors \<and> tracing_fds s' = [4, 6, 3, 5] \<and>
        opened_fds (trace s') = [3, 4, 5, 6] \<and> closed_fds (trace s') = [])"
    by (simp_all add: run_defs scenario_defs probe_defs failing_probe_env_def)
  from a b d ev show ?thesis by blast
qed

subsection \<open>Return probes are enabled before entry probes\<close>

text \<open>
  C4. For a cpuset without repetitions and instrumented functions that differ in
  binary path or file offset, starting from an empty log: the opening phase returns,
  and for every entry probe and return probe opened for the same function and CPU
  that are both in \<open>tracing_fds\<close>, the return probe's descriptor stands before the
  entry probe's descriptor in \<open>tracing_fds\<close>. Recording starts by enabling the
  descriptors of \<open>tracing_fds\<close> in that order, so the return probe is enabled first.
\<close>

theorem return_probe_enabled_first:
  assumes "trace s0 = []"
    and "distinct (GetCpusetCpus e (pid s0))"
    and "distinct (map fn_key (instrumented_functions s0))"
  shows "\<exists>a b c s. open_sources e s0 = Inr (a, b, c, s) \<and>
           trace (start_recording e s) = trace s @ map Enable (tracing_fds s) \<and>
           (\<forall>p off c fe fr.
              Open (uprobes_stack_event p off c) fe \<in> set (trace s) \<and>
              Open (uretprobes_event p off c) fr \<in> set (trace s) \<and>
              fe \<in> set (tracing_fds s) \<and> fr \<in> set (tracing_fds s)
              \<longrightarrow> before fr fe (tracing_fds s))"
proof -
  from open_sources_inv [OF assms(1,2)] assms(3) obtain a b c s where
    r: "open_sources e s0 = Inr (a, b, c, s)" and po: "pair_order s"
    by blast
  have en: "trace (start_recording e s) = trace s @ map Enable (tracing_fds s)"
    by (simp add: start_recording_def Let_def Stats_Reset_def read_clock_def)
  have "before fr fe (tracing_fds s)"
    if "Open (uprobes_stack_event p off c) fe \<in> set (trace s) \<and>
        Open (uretprobes_event p off c) fr \<in> set (trace s) \<and>
        fe \<in> set (tracing_fds s) \<and> fr \<in> set (tracing_fds s)" for p off c fe fr
    using that po unfolding pair_order_def probe_opens_iff by blast
  with r en show ?thesis by blast
qed

text \<open>One function on two CPUs: entry probes on 3 and 5, return probes on 4 and 6.\<close>

theorem return_probe_enabled_first_witness:
  "tracing_fds (opened_tracer quiet_env probe_tracer) = [4, 6, 3, 5, 7, 8] \<and>
   before 4 3 (tracing_fds (opened_tracer quiet_env probe_tracer)) \<and>
   before 6 5 (tracing_fds (opened_tracer quiet_env probe_tracer)) \<and>
   enabled_fds (trace (start_recording quiet_env (opened_tracer quiet_env probe_tracer))) =
     [4, 6, 3, 5, 7, 8]"
proof -
  have h: "trace probe_tracer = []" "distinct (GetCpusetCpus quiet_env (pid probe_tracer))"
    "distinct (map fn_key (instrumented_functions probe_tracer))"
    by (simp_all add: scenario_defs)
  from return_probe_enabled_first [OF h] obtain a b c s where
    r: "open_sources quiet_env probe_tracer = Inr (a, b, c, s)" and
    en: "trace (start_recording quiet_env s) = trace s @ map Enable (tracing_fds s)" and
    o: "\<forall>p off c fe fr.
              Open (uprobes_stack_event p off c) fe \<in> set (trace s) \<and>
              Open (uretprobes_event p off c) fr \<in> set (trace s) \<and>
              fe \<in> set (tracing_fds s) \<and> fr \<in> set (tracing_fds s)
              \<longrightarrow> before fr fe (tracing_fds s)"
    by blast
  have s: "s = opened_tracer quiet_env probe_tracer" using r by (simp add: opened_tracer_def)
  have tr: "trace (opened_tracer quiet_env probe_tracer) =
      [Open (uprobes_stack_event ''/bin/app'' 4096 0) 3, Open (uretprobes_event ''/bin/app'' 4096 0) 4,
       Open (uprobes_stack_event ''/bin/app'' 4096 1) 5, Open (uretprobes_event ''/bin/app'' 4096 1) 6,
       Mmap 3, Redirect 4 3, Mmap 5, Redirect 6 5,
       Open (mmap_task_event 0) 7, Mmap 7, Open (mmap_task_event 1) 8, Mmap 8]"
    and tf: "tracing_fds (opened_tracer quiet_env probe_tracer) = [4, 6, 3, 5, 7, 8]"
    by (simp_all add: run_defs scenario_defs probe_defs)
  have b1: "before 4 3 (tracing_fds (opened_tracer quiet_env probe_tracer))"
    using o [unfolded s, rule_format, of "''/bin/app''" 4096 0 3 4] by (simp add: tr tf)
  have b2: "before 6 5 (tracing_fds (opened_tracer quiet_env probe_tracer))"
    using o [unfolded s, rule_format, of "''/bin/app''" 4096 1 5 6] by (simp add: tr tf)
  have e: "enabled_fds (trace (start_recording quiet_env (opened_tracer quiet_env probe_tracer))) =
     [4, 6, 3, 5, 7, 8]"
    using en [unfolded s] by (simp add: tr tf)
  from tf b1 b2 e show ?thesis by blast
qed

subsection \<open>Shutdown\<close>

lemma closed_fds_map_Enable [simp]: "closed_fds (map Enable fds) = []"
  by (induction fds) simp_all

lemma closed_fds_map_Disable [simp]: "closed_fds (map Disable fds) = []"
  by (induction fds) simp_all

lemma closed_fds_map_AddEvent [simp]:
  "closed_fds (map (\<lambda>ev. AddEvent (GetOriginFileDescriptor ev) ev) evs) = []"
  by (induction evs) simp_all

lemma enabled_fds_map_Enable [simp]: "enabled_fds (map Enable fds) = fds"
  by (induction fds) simp_all

lemma count_list_distinct: "distinct xs \<Longrightarrow> x \<in> set xs \<Longrightarrow> count_list xs x = 1"
  by (induction xs) (auto simp: count_list_0_iff)

lemma trace_ProcessSampleEvent:
  "ProcessSampleEvent e r i s = Inr s' \<Longrightarrow> trace s' = trace s \<and> tracing_fds s' = tracing_fds s"
  by (auto simp: ProcessSampleEvent_def Let_def ConsumeRecord_def DeferEvent_def
        SkipRecord_def split: if_splits option.splits)

lemma trace_process_record:
  "process_record e r i s = Inr s' \<Longrightarrow> trace s' = trace s \<and> tracing_fds s' = tracing_fds s"
  by (auto simp: process_record_def ProcessContextSwitchEvent_def
        ProcessContextSwitchCpuWideEvent_def ProcessForkEvent_def ProcessExitEvent_def
        ProcessMmapEvent_def ProcessLostEvent_def Let_def ConsumeRecord_def DeferEvent_def
        call_listener_def read_clock_def SkipRecord_def dest: trace_ProcessSampleEvent
        split: if_splits)

lemma polling_trace:
  "polling e s0 s \<Longrightarrow>
     trace s = trace s0 @ map Enable (tracing_fds s0) \<and> tracing_fds s = tracing_fds s0"
proof (induction rule: polling.induct)
  case polling_start
  show ?case by (simp add: start_recording_def Let_def Stats_Reset_def read_clock_def)
next
  case (polling_exit s)
  then show ?case by (simp add: read_exit_requested_def)
next
  case (polling_stats s)
  then show ?case by (simp add: PrintStatsIfTimerElapsed_def Stats_Reset_def read_clock_def)
next
  case (polling_record s r i s')
  then show ?case using trace_process_record by metis
qed

lemma shutdown_trace:
  "trace (shutdown s) =
     trace s @ [StopDeferredThread]
       @ (if deferred_events s = [] then []
          else map (\<lambda>ev. AddEvent (GetOriginFileDescriptor ev) ev) (deferred_events s)
                 @ [ProcessOldEvents])
       @ [JoinDeferredThread, ProcessAllEvents]
       @ map Disable (tracing_fds s)
       @ unmap_actions (ring_buffers s)
       @ map Close (tracing_fds s)"
  by (simp add: shutdown_def Let_def ProcessDeferredEvents_def drop_ring_buffers_def
       CloseFileDescriptors_def)

lemma shutdown_fields:
  "tracing_fds (shutdown s) = tracing_fds s \<and> ring_buffers (shutdown s) = [] \<and>
   stop_deferred_thread (shutdown s)"
  by (simp add: shutdown_def Let_def ProcessDeferredEvents_def drop_ring_buffers_def
       CloseFileDescriptors_def)

lemma main_loop_exit_requested: "exit_after s = 0 \<Longrightarrow> main_loop e saw s = Inr s"
  by (subst main_loop.simps) (simp add: read_exit_requested_def)

lemma Run_closes_once:
  assumes t0: "trace s0 = []" and dc: "distinct (GetCpusetCpus e (pid s0))"
    and run: "Run e s0 = Inr s'"
  shows "\<exists>s1. s' = shutdown s1 \<and> distinct (tracing_fds s1) \<and>
           (\<forall>f\<in>set (tracing_fds s1). f \<notin> set (closed_fds (trace s1))) \<and>
           (\<forall>f\<in>set (tracing_fds s1). count_list (closed_fds (trace s')) f = 1)"
proof -
  from open_sources_inv [OF t0 dc] obtain a b c s where
    o: "open_sources e s0 = Inr (a, b, c, s)" and ok: "tracked_ok s"
    by blast
  from run o obtain s1 where
    m: "main_loop e False (start_recording e s) = Inr s1" and s': "s' = shutdown s1"
    by (auto simp: Run_def split: if_splits sum.splits)
  from polling_trace [OF polling_main_loop [OF polling_start m]] have
    p: "trace s1 = trace s @ map Enable (tracing_fds s)" "tracing_fds s1 = tracing_fds s"
    by simp_all
  from ok have d: "distinct (tracing_fds s)"
    and dis: "set (closed_fds (trace s)) \<inter> set (tracing_fds s) = {}"
    unfolding tracked_ok_def by blast+
  have c1: "closed_fds (trace s1) = closed_fds (trace s)" using p(1) by simp
  have c': "closed_fds (trace s') = closed_fds (trace s) @ tracing_fds s"
    unfolding s' shutdown_trace using p by simp
  have "count_list (closed_fds (trace s')) f = 1" if "f \<in> set (tracing_fds s1)" for f
  proof -
    from that p(2) have f: "f \<in> set (tracing_fds s)" by simp
    with dis have "f \<notin> set (closed_fds (trace s))" by blast
    then have "count_list (closed_fds (trace s)) f = 0" by (simp add: count_list_0_iff)
    moreover have "count_list (tracing_fds s) f = 1" using d f by (rule count_list_distinct)
    ultimately show ?thesis unfolding c' by simp
  qed
  moreover have "f \<notin> set (closed_fds (trace s1))" if "f \<in> set (tracing_fds s1)" for f
    using that dis p(2) c1 by auto
  ultimately show ?thesis using s' d p(2) by auto
qed

text \<open>
  C9. The end of \<open>Run\<close> appends to the log, in this order: the stop flag of the
  deferred worker, the worker's last batch (when events are left in the deferred
  queue), the join, the final flush ProcessAllEvents, one disable for every descriptor
  of \<open>tracing_fds\<close>, one unmap for every open ring buffer, and one close for every
  descriptor of \<open>tracing_fds\<close>; so every unmap precedes every close. A while loop
  that finds \<open>exit_requested\<close> set ends at once. For a run that starts with an empty
  log on a cpuset without repetitions and returns: the run ends with the shutdown, the
  tracked descriptors are distinct, none of them was closed before the shutdown, and
  each of them is closed exactly once in the whole run.
\<close>

theorem shutdown_order:
  "trace (shutdown s) =
     trace s @ [StopDeferredThread]
       @ (if deferred_events s = [] then []
          else map (\<lambda>ev. AddEvent (GetOriginFileDescriptor ev) ev) (deferred_events s)
                 @ [ProcessOldEvents])
       @ [JoinDeferredThread, ProcessAllEvents]
       @ map Disable (tracing_fds s)
       @ unmap_actions (ring_buffers s)
       @ map Close (tracing_fds s) \<and>
   tracing_fds (shutdown s) = tracing_fds s \<and> ring_buffers (shutdown s) = [] \<and>
   stop_deferred_thread (shutdown s) \<and>
   (exit_after s = 0 \<longrightarrow> main_loop e saw s = Inr s) \<and>
   (trace s0 = [] \<and> distinct (GetCpusetCpus e (pid s0)) \<and> Run e s0 = Inr s' \<longrightarrow>
      (\<exists>s1. s' = shutdown s1 \<and> distinct (tracing_fds s1) \<and>
         (\<forall>f\<in>set (tracing_fds s1). f \<notin> set (closed_fds (trace s1))) \<and>
         (\<forall>f\<in>set (tracing_fds s1). count_list (closed_fds (trace s')) f = 1)))"
  using shutdown_trace [of s] shutdown_fields [of s] main_loop_exit_requested [of s e saw]
    Run_closes_once [of s0 e s']
  by blast

text \<open>The run of the first scenario: four descriptors, four ring buffers.\<close>

theorem shutdown_order_witness:
  "drop 12 (trace (projr (Run switch_env switch_tracer))) =
     [StopDeferredThread, JoinDeferredThread, ProcessAllEvents,
      Disable 3, Disable 4, Disable 5, Disable 6,
      Munmap 3, Munmap 4, Munmap 5, Munmap 6,
      Close 3, Close 4, Close 5, Close 6] \<and>
   map (count_list (closed_fds (trace (projr (Run switch_env switch_tracer))))) [3, 4, 5, 6] =
     [1, 1, 1, 1]"
proof -
  let ?s' = "projr (Run switch_env switch_tracer)"
  have h: "trace switch_tracer = []" "distinct (GetCpusetCpus switch_env (pid switch_tracer))"
    by (simp_all add: scenario_defs)
  have run: "Run switch_env switch_tracer = Inr ?s'"
    by (simp add: run_defs scenario_defs)
  have tf: "tracing_fds ?s' = [3, 4, 5, 6]"
    by (simp add: run_defs scenario_defs)
  from shutdown_order [where ?s0.0 = switch_tracer and e = switch_env and s' = ?s'] h run
  obtain s1 where s1: "?s' = shutdown s1"
    "\<forall>f\<in>set (tracing_fds s1). count_list (closed_fds (trace ?s')) f = 1"
    by blast
  from shutdown_order [where s = s1] s1(1) have "tracing_fds s1 = tracing_fds ?s'"
    by simp
  with s1(2) tf have c: "map (count_list (closed_fds (trace ?s'))) [3, 4, 5, 6] = [1, 1, 1, 1]"
    by simp
  have t: "drop 12 (trace ?s') =
     [StopDeferredThread, JoinDeferredThread, ProcessAllEvents,
      Disable 3, Disable 4, Disable 5, Disable 6,
      Munmap 3, Munmap 4, Munmap 5, Munmap 6,
      Close 3, Close 4, Close 5, Close 6]"
    by (simp add: run_defs scenario_defs)
  from t c show ?thesis by blast
qed

end
